theory Spec2Isabelle
  imports Main "HOL-Library.Word"
begin

unbundle bit_operations_syntax

section \<open>Data model of pkg/dicomio/reader.go\<close>

text \<open>
  Go's \<open>int64\<close> is a 64-bit word read in two's complement: \<open>+\<close> and \<open>-\<close> wrap
  around, comparisons are the signed ones (\<open><s\<close>, \<open>\<le>s\<close>). A slice length
  \<open>len(p)\<close> is a \<open>nat\<close>; \<open>int64(len(p))\<close> is exact in Go, so it is compared through
  \<open>sint\<close> on the integers.
\<close>

type_synonym byte = "8 word"
type_synonym int64 = "64 word"
type_synonym uint16 = "16 word"
type_synonym uint32 = "32 word"

text \<open>
  The error values that occur: \<open>io.EOF\<close>, \<open>io.ErrUnexpectedEOF\<close> and
  \<open>io.ErrShortBuffer\<close> of package io, the package's own
  \<open>ErrorInsufficientBytesLeft\<close>, the \<open>fmt.Errorf\<close> value of \<open>PushLimit\<close> (with the two
  numbers it formats), and any other error a byte source may hand back.
\<close>

datatype error =
    EOF
  | ErrUnexpectedEOF
  | ErrShortBuffer
  | ErrorInsufficientBytesLeft
  | ErrNewLimitExceeds int64 int64
  | SourceError nat

datatype ByteOrder = LittleEndian | BigEndian

datatype panic = IndexOutOfRange

text \<open>
  An \<open>io.Reader\<close> is an object with a \<open>Read(p)\<close> method. It is modelled by its
  private state \<open>'s\<close> and the method, which takes the state and \<open>len(p)\<close> and gives
  the bytes it wrote to the front of \<open>p\<close> (their number is the \<open>n\<close> it returns), the
  error it returns, and its next state. Nothing is assumed of it here: it may deliver
  fewer bytes than asked, bytes together with an error, or nothing at all.

  The same call may also use the rest of \<open>p\<close> as scratch space. What it leaves
  there is the second function of the source: for the state and \<open>len(p)\<close> of the
  call, one entry for each byte of \<open>p\<close> behind the bytes reported, \<open>Some b\<close> where the
  call wrote \<open>b\<close> and \<open>None\<close> (or no entry) where it left the byte as it was.
\<close>

type_synonym 's Read_method = "'s \<Rightarrow> nat \<Rightarrow> byte list \<times> error option \<times> 's"

type_synonym 's Scratch = "'s \<Rightarrow> nat \<Rightarrow> byte option list"

text \<open>The contract of \<open>io.Reader\<close>: \<open>0 \<le> n \<le> len(p)\<close>.\<close>

definition io_Reader_contract :: "'s Read_method \<Rightarrow> bool" where
  "io_Reader_contract rd = (\<forall>s k. length (fst (rd s k)) \<le> k)"

text \<open>A source that never stalls: a non-empty request gets a byte or an error.\<close>

definition never_stalls :: "'s Read_method \<Rightarrow> bool" where
  "never_stalls rd = (\<forall>s k. 0 < k \<longrightarrow> fst (rd s k) \<noteq> [] \<or> fst (snd (rd s k)) \<noteq> None)"

text \<open>
  A source that supplies \<open>n\<close> more bytes: whatever non-empty request comes next, it
  answers with at least one byte, no more than asked and no error, and then supplies
  the rest.
\<close>

inductive supplies :: "'s Read_method \<Rightarrow> 's \<Rightarrow> nat \<Rightarrow> bool"
  for rd :: "'s Read_method" where
  supplies_none: "supplies rd s 0"
| supplies_more:
    "\<forall>k. 0 < k \<longrightarrow>
       (\<exists>bs s'. rd s k = (bs, None, s') \<and> bs \<noteq> [] \<and> length bs \<le> k
                \<and> supplies rd s' (n - length bs))
     \<Longrightarrow> supplies rd s n"

record 's reader =
  in_Read :: "'s Read_method"
  in_Scratch :: "'s Scratch"
  in_state :: 's
  bo :: ByteOrder
  limit :: int64
  bytesRead :: int64
  limitStack :: "int64 list"

definition NewReader ::
    "'s Read_method \<Rightarrow> 's Scratch \<Rightarrow> 's \<Rightarrow> ByteOrder \<Rightarrow> int64
       \<Rightarrow> 's reader \<times> error option" where
  "NewReader rd scr s b lim =
     (\<lparr>in_Read = rd, in_Scratch = scr, in_state = s, bo = b, limit = lim, bytesRead = 0,
       limitStack = []\<rparr>,
      None)"

definition BytesLeftUntilLimit :: "'s reader \<Rightarrow> int64" where
  "BytesLeftUntilLimit r = limit r - bytesRead r"

definition IsLimitExhausted :: "'s reader \<Rightarrow> bool" where
  "IsLimitExhausted r = (BytesLeftUntilLimit r \<le>s 0)"

section \<open>The bounded pull\<close>

text \<open>
  \<open>Read r lenp\<close> is \<open>r.Read(p)\<close> with \<open>len(p) = lenp\<close>: the bytes put into \<open>p\<close>
  (the returned \<open>n\<close> is their number), the error, and the reader afterwards.
\<close>

definition Read :: "'s reader \<Rightarrow> nat \<Rightarrow> byte list \<times> error option \<times> 's reader" where
  "Read r lenp =
     (if BytesLeftUntilLimit r \<le>s 0 then
        (if lenp = 0 then ([], None, r) else ([], Some EOF, r))
      else
        (let k = (if sint (BytesLeftUntilLimit r) < int lenp
                  then nat (sint (BytesLeftUntilLimit r)) else lenp)
         in case in_Read r (in_state r) k of (bs, err, s') \<Rightarrow>
           (let n = int (length bs);
                r' = r\<lparr>in_state := s'\<rparr>
            in (bs, err,
                if 0 \<le> n then r'\<lparr>bytesRead := bytesRead r' + word_of_int n\<rparr> else r'))))"

text \<open>
  What the same call leaves in \<open>p\<close> behind the bytes it reports. At the limit the
  source is not called and \<open>p\<close> is left alone; before it, the source is handed the
  first \<open>k\<close> bytes of \<open>p\<close> and can write nowhere else.
\<close>

definition Read_scratch :: "'s reader \<Rightarrow> nat \<Rightarrow> byte option list" where
  "Read_scratch r lenp =
     (if BytesLeftUntilLimit r \<le>s 0 then []
      else
        (let k = (if sint (BytesLeftUntilLimit r) < int lenp
                  then nat (sint (BytesLeftUntilLimit r)) else lenp)
         in case in_Read r (in_state r) k of (bs, err, s') \<Rightarrow>
              take (k - length bs) (in_Scratch r (in_state r) k)))"

section \<open>The functions of Go's standard library that the reader calls\<close>

text \<open>
  The loops of package io pull from the reader until they are satisfied; a source that
  keeps answering with no bytes and no error keeps them running. Each loop takes fuel,
  one unit for each \<open>Read\<close> it issues, and gives \<open>None\<close> when the fuel is gone before
  the loop has ended.
\<close>

text \<open>Scratch entries laid over the bytes that were there.\<close>

fun overlay :: "byte option list \<Rightarrow> byte list \<Rightarrow> byte list" where
  "overlay [] ys = ys"
| "overlay (x # xs) [] = []"
| "overlay (x # xs) (y # ys) = (case x of Some b \<Rightarrow> b | None \<Rightarrow> y) # overlay xs ys"

text \<open>
  The effect of \<open>r.Read(buf[n:])\<close> on \<open>buf\<close>: the bytes reported land behind the
  first \<open>n\<close>, the scratch entries behind them; \<open>buf\<close> keeps its length.
\<close>

definition write_at :: "byte list \<Rightarrow> nat \<Rightarrow> byte list \<Rightarrow> byte option list \<Rightarrow> byte list" where
  "write_at buf n bs scr =
     take (length buf) (take n buf @ bs @ overlay scr (drop (n + length bs) buf))"

text \<open>
  \<open>io.ReadAtLeast\<close>:
  \<^verbatim>\<open>for n < min && err == nil { nn, err = r.Read(buf[n:]); n += nn }\<close>
\<close>

fun ReadAtLeast_loop ::
    "nat \<Rightarrow> 's reader \<Rightarrow> byte list \<Rightarrow> nat \<Rightarrow> nat \<Rightarrow> error option \<Rightarrow>
       (byte list \<times> nat \<times> error option \<times> 's reader) option" where
  "ReadAtLeast_loop 0 r buf mn n err =
     (if n < mn \<and> err = None then None else Some (buf, n, err, r))"
| "ReadAtLeast_loop (Suc fuel) r buf mn n err =
     (if n < mn \<and> err = None then
        (case Read r (length buf - n) of (bs, err', r') \<Rightarrow>
           ReadAtLeast_loop fuel r' (write_at buf n bs (Read_scratch r (length buf - n))) mn
             (n + length bs) err')
      else Some (buf, n, err, r))"

definition ReadAtLeast ::
    "nat \<Rightarrow> 's reader \<Rightarrow> byte list \<Rightarrow> nat \<Rightarrow>
       (byte list \<times> nat \<times> error option \<times> 's reader) option" where
  "ReadAtLeast fuel r buf mn =
     (if length buf < mn then Some (buf, 0, Some ErrShortBuffer, r)
      else
        (case ReadAtLeast_loop fuel r buf mn 0 None of
           None \<Rightarrow> None
         | Some (buf', n, err, r') \<Rightarrow>
             Some (buf', n,
                   if mn \<le> n then None
                   else if 0 < n \<and> err = Some EOF then Some ErrUnexpectedEOF
                   else err,
                   r')))"

definition ReadFull ::
    "nat \<Rightarrow> 's reader \<Rightarrow> byte list \<Rightarrow> (byte list \<times> nat \<times> error option \<times> 's reader) option" where
  "ReadFull fuel r buf = ReadAtLeast fuel r buf (length buf)"

text \<open>
  The bytes the byte source hands over, in order, while \<open>ReadAtLeast_loop\<close> runs: an
  observer of the run above, following the same calls.
\<close>

fun ReadAtLeast_pulled ::
    "nat \<Rightarrow> 's reader \<Rightarrow> nat \<Rightarrow> nat \<Rightarrow> nat \<Rightarrow> error option \<Rightarrow> byte list" where
  "ReadAtLeast_pulled 0 r lenbuf mn n err = []"
| "ReadAtLeast_pulled (Suc fuel) r lenbuf mn n err =
     (if n < mn \<and> err = None then
        (case Read r (lenbuf - n) of (bs, err', r') \<Rightarrow>
           bs @ ReadAtLeast_pulled fuel r' lenbuf mn (n + length bs) err')
      else [])"

definition ReadFull_pulled :: "nat \<Rightarrow> 's reader \<Rightarrow> nat \<Rightarrow> byte list" where
  "ReadFull_pulled fuel r lenbuf = ReadAtLeast_pulled fuel r lenbuf lenbuf 0 None"

text \<open>\<open>binary.LittleEndian\<close> and \<open>binary.BigEndian\<close>: \<open>Uint16\<close> and \<open>Uint32\<close>.\<close>

fun Uint16 :: "ByteOrder \<Rightarrow> byte list \<Rightarrow> uint16" where
  "Uint16 LittleEndian b = ucast (b ! 0) OR push_bit 8 (ucast (b ! 1))"
| "Uint16 BigEndian b = ucast (b ! 1) OR push_bit 8 (ucast (b ! 0))"

fun Uint32 :: "ByteOrder \<Rightarrow> byte list \<Rightarrow> uint32" where
  "Uint32 LittleEndian b =
     ucast (b ! 0) OR push_bit 8 (ucast (b ! 1)) OR push_bit 16 (ucast (b ! 2))
       OR push_bit 24 (ucast (b ! 3))"
| "Uint32 BigEndian b =
     ucast (b ! 3) OR push_bit 8 (ucast (b ! 2)) OR push_bit 16 (ucast (b ! 1))
       OR push_bit 24 (ucast (b ! 0))"

text \<open>
  \<open>binary.Read(r, order, &out)\<close> for a fixed-size integer of \<open>sz\<close> bytes: a fresh
  buffer of \<open>sz\<close> zero bytes, \<open>io.ReadFull\<close>, and on an error nothing is decoded
  (\<open>out\<close> keeps its zero value).
\<close>

definition binary_Read ::
    "nat \<Rightarrow> 's reader \<Rightarrow> nat \<Rightarrow> (byte list option \<times> error option \<times> 's reader) option" where
  "binary_Read fuel r sz =
     (case ReadFull fuel r (replicate sz 0) of
        None \<Rightarrow> None
      | Some (bs, n, err, r') \<Rightarrow>
          (case err of
             Some e \<Rightarrow> Some (None, Some e, r')
           | None \<Rightarrow> Some (Some bs, None, r')))"

text \<open>
  \<open>io.LimitedReader\<close> around the reader, with its field \<open>N\<close>:
  \<^verbatim>\<open>if l.N <= 0 { return 0, EOF }
  if int64(len(p)) > l.N { p = p[0:l.N] }
  n, err = l.R.Read(p); l.N -= int64(n)\<close>
\<close>

definition LimitedReader_Read ::
    "'s reader \<Rightarrow> int64 \<Rightarrow> nat \<Rightarrow> byte list \<times> error option \<times> 's reader \<times> int64" where
  "LimitedReader_Read r lN lenp =
     (if lN \<le>s 0 then ([], Some EOF, r, lN)
      else
        (let k = (if sint lN < int lenp then nat (sint lN) else lenp)
         in case Read r k of (bs, err, r') \<Rightarrow>
              (bs, err, r', lN - word_of_int (int (length bs)))))"

text \<open>
  \<open>ioutil.Discard\<close> is an \<open>io.ReaderFrom\<close>, so \<open>io.Copy\<close> hands the copy to its
  \<open>ReadFrom\<close>, which reads into a buffer of 8192 bytes until an error, and turns
  \<open>EOF\<close> into success:
  \<^verbatim>\<open>for { readSize, err = r.Read(*bufp); n += int64(readSize)
        if err != nil { if err == EOF { return n, nil }; return } }\<close>
\<close>

fun discard_ReadFrom ::
    "nat \<Rightarrow> 's reader \<Rightarrow> int64 \<Rightarrow> int64 \<Rightarrow> (int64 \<times> error option \<times> 's reader) option" where
  "discard_ReadFrom 0 r lN n = None"
| "discard_ReadFrom (Suc fuel) r lN n =
     (case LimitedReader_Read r lN 8192 of (bs, err, r', lN') \<Rightarrow>
        (let n' = n + word_of_int (int (length bs))
         in case err of
              Some e \<Rightarrow> Some (n', if e = EOF then None else Some e, r')
            | None \<Rightarrow> discard_ReadFrom fuel r' lN' n'))"

text \<open>
  \<open>io.CopyN(ioutil.Discard, r, n)\<close>:
  \<^verbatim>\<open>written, err = Copy(dst, LimitReader(src, n))
  if written == n { return n, nil }
  if written < n && err == nil { err = EOF }\<close>
\<close>

definition CopyN :: "nat \<Rightarrow> 's reader \<Rightarrow> int64 \<Rightarrow> (int64 \<times> error option \<times> 's reader) option" where
  "CopyN fuel r n =
     (case discard_ReadFrom fuel r n 0 of
        None \<Rightarrow> None
      | Some (written, err, r') \<Rightarrow>
          Some (if written = n then (n, None, r')
                else if written <s n \<and> err = None then (written, Some EOF, r')
                else (written, err, r')))"

section \<open>Typed reads, text, skip\<close>

definition ReadUInt16 :: "nat \<Rightarrow> 's reader \<Rightarrow> (uint16 \<times> error option \<times> 's reader) option" where
  "ReadUInt16 fuel r =
     (case binary_Read fuel r 2 of
        None \<Rightarrow> None
      | Some (None, err, r') \<Rightarrow> Some (0, err, r')
      | Some (Some bs, err, r') \<Rightarrow> Some (Uint16 (bo r) bs, err, r'))"

definition ReadUInt32 :: "nat \<Rightarrow> 's reader \<Rightarrow> (uint32 \<times> error option \<times> 's reader) option" where
  "ReadUInt32 fuel r =
     (case binary_Read fuel r 4 of
        None \<Rightarrow> None
      | Some (None, err, r') \<Rightarrow> Some (0, err, r')
      | Some (Some bs, err, r') \<Rightarrow> Some (Uint32 (bo r) bs, err, r'))"

text \<open>
  \<open>int16\<close> and \<open>int32\<close> are the same 16 and 32 bits, read by \<open>sint\<close>:
  \<open>binary.Read\<close> decodes them as \<open>int16(order.Uint16(bs))\<close> and \<open>int32(order.Uint32(bs))\<close>.
\<close>

definition ReadInt16 :: "nat \<Rightarrow> 's reader \<Rightarrow> (int \<times> error option \<times> 's reader) option" where
  "ReadInt16 fuel r =
     (case binary_Read fuel r 2 of
        None \<Rightarrow> None
      | Some (None, err, r') \<Rightarrow> Some (0, err, r')
      | Some (Some bs, err, r') \<Rightarrow> Some (sint (Uint16 (bo r) bs), err, r'))"

definition ReadInt32 :: "nat \<Rightarrow> 's reader \<Rightarrow> (int \<times> error option \<times> 's reader) option" where
  "ReadInt32 fuel r =
     (case binary_Read fuel r 4 of
        None \<Rightarrow> None
      | Some (None, err, r') \<Rightarrow> Some (0, err, r')
      | Some (Some bs, err, r') \<Rightarrow> Some (sint (Uint32 (bo r) bs), err, r'))"

text \<open>
  \<open>ReadString(n)\<close>: \<open>data := make([]byte, n)\<close>, \<open>io.ReadFull(r, data)\<close>, and
  \<open>string(data)\<close> with the error, whatever the error is. The string is the byte list.
\<close>

definition ReadString :: "nat \<Rightarrow> 's reader \<Rightarrow> uint32 \<Rightarrow> (byte list \<times> error option \<times> 's reader) option" where
  "ReadString fuel r n =
     (case ReadFull fuel r (replicate (unat n) 0) of
        None \<Rightarrow> None
      | Some (data, m, err, r') \<Rightarrow> Some (data, err, r'))"

definition Skip :: "nat \<Rightarrow> 's reader \<Rightarrow> int64 \<Rightarrow> (error option \<times> 's reader) option" where
  "Skip fuel r n =
     (if BytesLeftUntilLimit r <s n then Some (Some ErrorInsufficientBytesLeft, r)
      else
        (case CopyN fuel r n of
           None \<Rightarrow> None
         | Some (written, err, r') \<Rightarrow> Some (err, r')))"

section \<open>Nested limits\<close>

definition PushLimit :: "'s reader \<Rightarrow> int64 \<Rightarrow> error option \<times> 's reader" where
  "PushLimit r n =
     (let newLimit = bytesRead r + n
      in if limit r <s newLimit then (Some (ErrNewLimitExceeds newLimit (limit r)), r)
         else (None, r\<lparr>limitStack := limitStack r @ [limit r], limit := newLimit\<rparr>))"

text \<open>
  \<open>PopLimit\<close> returns nothing; the error of its \<open>Skip\<close> is dropped. The index
  \<open>len(r.limitStack) - 1\<close> is \<open>-1\<close> on an empty stack, and \<open>r.limitStack[-1]\<close> panics
  (after the skip has run): \<open>Inl\<close> with the reader as the panic finds it.
\<close>

definition PopLimit :: "nat \<Rightarrow> 's reader \<Rightarrow> (panic \<times> 's reader + 's reader) option" where
  "PopLimit fuel r =
     (case (if bytesRead r <s limit r
            then map_option snd (Skip fuel r (limit r - bytesRead r))
            else Some r) of
        None \<Rightarrow> None
      | Some r1 \<Rightarrow>
          (let last = int (length (limitStack r1)) - 1
           in if last < 0 then Some (Inl (IndexOutOfRange, r1))
              else Some (Inr (r1\<lparr>limit := limitStack r1 ! nat last,
                                  limitStack := take (nat last) (limitStack r1)\<rparr>))))"

section \<open>The decoder's lifetime\<close>

text \<open>
  The number of bytes the byte source hands over while the discard loop of \<open>Skip\<close>
  runs, and while \<open>Skip\<close> and \<open>PopLimit\<close> run: observers of the runs above, following
  the same calls.
\<close>

fun discard_ReadFrom_pulled :: "nat \<Rightarrow> 's reader \<Rightarrow> int64 \<Rightarrow> nat" where
  "discard_ReadFrom_pulled 0 r lN = 0"
| "discard_ReadFrom_pulled (Suc fuel) r lN =
     (case LimitedReader_Read r lN 8192 of (bs, err, r', lN') \<Rightarrow>
        length bs + (case err of Some e \<Rightarrow> 0 | None \<Rightarrow> discard_ReadFrom_pulled fuel r' lN'))"

definition Skip_pulled :: "nat \<Rightarrow> 's reader \<Rightarrow> int64 \<Rightarrow> nat" where
  "Skip_pulled fuel r n =
     (if BytesLeftUntilLimit r <s n then 0 else discard_ReadFrom_pulled fuel r n)"

definition PopLimit_pulled :: "nat \<Rightarrow> 's reader \<Rightarrow> nat" where
  "PopLimit_pulled fuel r =
     (if bytesRead r <s limit r then Skip_pulled fuel r (limit r - bytesRead r) else 0)"

text \<open>
  One operation of the interface that has returned, as a step from the reader before it
  to the reader after it; beside each reader stands the number of bytes pulled from the
  byte source since the decoder was created. A \<open>PopLimit\<close> that panics is a step to the
  reader as the panic leaves it. The two queries change nothing.
\<close>

inductive lifetime_step :: "'s reader \<times> nat \<Rightarrow> 's reader \<times> nat \<Rightarrow> bool" where
  step_Read:
    "Read r lenp = (bs, e, r') \<Longrightarrow> lifetime_step (r, t) (r', t + length bs)"
| step_ReadUInt16:
    "ReadUInt16 fuel r = Some (u16, e, r') \<Longrightarrow>
       lifetime_step (r, t) (r', t + length (ReadFull_pulled fuel r 2))"
| step_ReadUInt32:
    "ReadUInt32 fuel r = Some (u32, e, r') \<Longrightarrow>
       lifetime_step (r, t) (r', t + length (ReadFull_pulled fuel r 4))"
| step_ReadInt16:
    "ReadInt16 fuel r = Some (i16, e, r') \<Longrightarrow>
       lifetime_step (r, t) (r', t + length (ReadFull_pulled fuel r 2))"
| step_ReadInt32:
    "ReadInt32 fuel r = Some (i32, e, r') \<Longrightarrow>
       lifetime_step (r, t) (r', t + length (ReadFull_pulled fuel r 4))"
| step_ReadString:
    "ReadString fuel r n = Some (str, e, r') \<Longrightarrow>
       lifetime_step (r, t) (r', t + length (ReadFull_pulled fuel r (unat n)))"
| step_Skip:
    "Skip fuel r m = Some (e, r') \<Longrightarrow> lifetime_step (r, t) (r', t + Skip_pulled fuel r m)"
| step_PushLimit:
    "PushLimit r m = (e, r') \<Longrightarrow> lifetime_step (r, t) (r', t)"
| step_PopLimit:
    "PopLimit fuel r = Some (Inr r') \<Longrightarrow>
       lifetime_step (r, t) (r', t + PopLimit_pulled fuel r)"
| step_PopLimit_panic:
    "PopLimit fuel r = Some (Inl (pnc, r')) \<Longrightarrow>
       lifetime_step (r, t) (r', t + PopLimit_pulled fuel r)"
| step_IsLimitExhausted:
    "IsLimitExhausted r = x \<Longrightarrow> lifetime_step (r, t) (r, t)"
| step_BytesLeftUntilLimit:
    "BytesLeftUntilLimit r = left \<Longrightarrow> lifetime_step (r, t) (r, t)"

section \<open>Byte sources used in the examples\<close>

text \<open>
  An in-memory source over a byte list, as \<open>bytes.Reader\<close> behaves: \<open>EOF\<close> once the
  bytes are used up, otherwise as many bytes as fit.
\<close>

definition bytes_Reader :: "byte list Read_method" where
  "bytes_Reader s k = (if s = [] then ([], Some EOF, s) else (take k s, None, drop k s))"

text \<open>The scratch of a source that writes only the bytes it reports: no entries.\<close>

definition no_scratch :: "'s Scratch" where
  "no_scratch s k = []"

text \<open>
  The scratch of an in-memory source that, on each call that delivers bytes, also fills
  the rest of \<open>p\<close> with \<open>0xFF\<close>.
\<close>

definition fill_scratch :: "byte list Scratch" where
  "fill_scratch s k = (if s = [] then [] else replicate k (Some 255))"

text \<open>A source that hands over one byte at a time.\<close>

definition one_byte_Reader :: "byte list Read_method" where
  "one_byte_Reader s k =
     (if s = [] then ([], Some EOF, s) else (take (min k 1) s, None, drop (min k 1) s))"

text \<open>The reader that \<open>NewReader\<close> builds over an in-memory source.\<close>

definition mem_reader :: "byte list \<Rightarrow> ByteOrder \<Rightarrow> int64 \<Rightarrow> byte list reader" where
  "mem_reader src b lim = fst (NewReader bytes_Reader no_scratch src b lim)"

text \<open>The same over a source that hands over one byte at a time.\<close>

definition chunked_reader :: "byte list \<Rightarrow> ByteOrder \<Rightarrow> int64 \<Rightarrow> byte list reader" where
  "chunked_reader src b lim = fst (NewReader one_byte_Reader no_scratch src b lim)"

text \<open>The same over a source that uses the rest of the buffer as scratch space.\<close>

definition scribbling_reader :: "byte list \<Rightarrow> ByteOrder \<Rightarrow> int64 \<Rightarrow> byte list reader" where
  "scribbling_reader src b lim = fst (NewReader bytes_Reader fill_scratch src b lim)"

section \<open>Theorems\<close>

subsection \<open>Signed 64-bit arithmetic\<close>

lemma sint64_bounds: "- 9223372036854775808 \<le> sint (a :: int64) \<and> sint a < 9223372036854775808"
  using sint_ge [of a] sint_lt [of a] by simp

lemma sint64_of_int:
  "- 9223372036854775808 \<le> k \<Longrightarrow> k < 9223372036854775808 \<Longrightarrow> sint (word_of_int k :: int64) = k"
  by (simp add: sint_sbintrunc' signed_take_bit_int_eq_self)

lemma sint64_add:
  "- 9223372036854775808 \<le> sint a + sint b \<Longrightarrow> sint a + sint b < 9223372036854775808 \<Longrightarrow>
     sint (a + b :: int64) = sint a + sint b"
  by (simp add: sint_word_ariths signed_take_bit_int_eq_self)

lemma sint64_diff:
  "- 9223372036854775808 \<le> sint a - sint b \<Longrightarrow> sint a - sint b < 9223372036854775808 \<Longrightarrow>
     sint (a - b :: int64) = sint a - sint b"
  by (simp add: sint_word_ariths signed_take_bit_int_eq_self)


subsection \<open>The bounded pull\<close>

lemma sint64_eqI: "sint (a :: int64) = sint b \<Longrightarrow> a = b"
  by (rule signed_word_eqI)

lemma Read_fields:
  "Read r N = (bs, e, r') \<Longrightarrow>
     in_Read r' = in_Read r \<and> in_Scratch r' = in_Scratch r \<and> bo r' = bo r \<and> limit r' = limit r
     \<and> limitStack r' = limitStack r
     \<and> bytesRead r' = bytesRead r + word_of_int (int (length bs))"
  by (auto simp: Read_def Let_def split: if_splits prod.splits)

lemma Read_length:
  assumes "io_Reader_contract (in_Read r)" "Read r N = (bs, e, r')"
  shows "length bs \<le> N \<and> (bs \<noteq> [] \<longrightarrow> int (length bs) \<le> sint (BytesLeftUntilLimit r))"
proof (cases "BytesLeftUntilLimit r \<le>s 0")
  case True
  with assms(2) show ?thesis by (auto simp: Read_def split: if_splits)
next
  case False
  define k where "k = (if sint (BytesLeftUntilLimit r) < int N
                  then nat (sint (BytesLeftUntilLimit r)) else N)"
  from assms(1) have "length (fst (in_Read r (in_state r) k)) \<le> k"
    by (simp add: io_Reader_contract_def)
  moreover from False assms(2) have "bs = fst (in_Read r (in_state r) k)"
    by (auto simp: Read_def Let_def k_def split: prod.splits)
  moreover from False have "k \<le> N \<and> int k \<le> sint (BytesLeftUntilLimit r)"
    by (auto simp: k_def word_sle_eq)
  ultimately show ?thesis by auto
qed

lemma Read_stalls:
  assumes "never_stalls (in_Read r)" "Read r N = (bs, e, r')" "0 < N"
  shows "bs \<noteq> [] \<or> e \<noteq> None"
proof (cases "BytesLeftUntilLimit r \<le>s 0")
  case True
  with assms(2,3) show ?thesis by (auto simp: Read_def split: if_splits)
next
  case False
  define k where "k = (if sint (BytesLeftUntilLimit r) < int N
                  then nat (sint (BytesLeftUntilLimit r)) else N)"
  from False assms(3) have "0 < k" by (auto simp: k_def word_sle_eq)
  with assms(1) have "fst (in_Read r (in_state r) k) \<noteq> [] \<or> fst (snd (in_Read r (in_state r) k)) \<noteq> None"
    by (simp add: never_stalls_def)
  moreover from False assms(2) have "bs = fst (in_Read r (in_state r) k) \<and> e = fst (snd (in_Read r (in_state r) k))"
    by (auto simp: Read_def Let_def k_def split: prod.splits)
  ultimately show ?thesis by auto
qed

subsection \<open>Example readers\<close>

lemma mem_reader_simps:
  "in_Read (mem_reader src b lim) = bytes_Reader"
  "in_Scratch (mem_reader src b lim) = no_scratch"
  "in_state (mem_reader src b lim) = src"
  "bo (mem_reader src b lim) = b"
  "limit (mem_reader src b lim) = lim"
  "bytesRead (mem_reader src b lim) = 0"
  "limitStack (mem_reader src b lim) = []"
  by (simp_all add: mem_reader_def NewReader_def)

lemma bytes_Reader_contract: "io_Reader_contract bytes_Reader"
  by (simp add: io_Reader_contract_def bytes_Reader_def)

lemma bytes_Reader_never_stalls: "never_stalls bytes_Reader"
  by (auto simp: never_stalls_def bytes_Reader_def)

lemma bytes_Reader_supplies: "n \<le> length s \<Longrightarrow> supplies bytes_Reader s n"
proof (induction n arbitrary: s rule: less_induct)
  case (less n)
  show ?case
  proof (cases "n = 0")
    case True
    then show ?thesis by (simp add: supplies_none)
  next
    case False
    with less.prems have ne: "s \<noteq> []" by auto
    show ?thesis
    proof (rule supplies_more, intro allI impI)
      fix k :: nat
      assume k: "0 < k"
      from ne k have t: "take k s \<noteq> []" by (cases s) auto
      then have "0 < length (take k s)" by simp
      with False have "n - length (take k s) < n" by linarith
      moreover from less.prems have "n - length (take k s) \<le> length (drop k s)" by auto
      ultimately have "supplies bytes_Reader (drop k s) (n - length (take k s))"
        by (rule less.IH)
      with ne t show "\<exists>bs s'. bytes_Reader s k = (bs, None, s') \<and> bs \<noteq> [] \<and> length bs \<le> k
                \<and> supplies bytes_Reader s' (n - length bs)"
        by (simp add: bytes_Reader_def)
    qed
  qed
qed

lemma discard_ReadFrom_numeral:
  "discard_ReadFrom (numeral k) r lN n =
     (case LimitedReader_Read r lN 8192 of (bs, err, r', lN') \<Rightarrow>
        (let n' = n + word_of_int (int (length bs))
         in case err of
              Some e \<Rightarrow> Some (n', if e = EOF then None else Some e, r')
            | None \<Rightarrow> discard_ReadFrom (pred_numeral k) r' lN' n'))"
  using discard_ReadFrom.simps(2) [of "pred_numeral k" r lN n]
  by (simp only: numeral_eq_Suc [of k, symmetric])

lemmas eval_simps = discard_ReadFrom_numeral Skip_def CopyN_def BytesLeftUntilLimit_def
  LimitedReader_Read_def Read_def bytes_Reader_def mem_reader_def NewReader_def
  word_sless_alt word_sle_eq PopLimit_def PushLimit_def Read_scratch_def no_scratch_def

subsection \<open>The bounded pull at and before the limit\<close>

text \<open>
  C5. In an exhausted scope (\<open>BytesLeftUntilLimit r \<le> 0\<close>) a pull of zero bytes gives
  no bytes and no error, a pull of more gives no bytes and \<open>io.EOF\<close>; the reader,
  its byte source included, is left as it was.
\<close>

theorem Read_exhausted:
  "BytesLeftUntilLimit r \<le>s 0 \<Longrightarrow>
     Read r 0 = ([], None, r) \<and> (0 < N \<longrightarrow> Read r N = ([], Some EOF, r))"
  by (simp add: Read_def)

theorem Read_exhausted_witness:
  "BytesLeftUntilLimit (mem_reader [7, 8] LittleEndian 0) \<le>s 0
   \<and> Read (mem_reader [7, 8] LittleEndian 0) 0 = ([], None, mem_reader [7, 8] LittleEndian 0)
   \<and> Read (mem_reader [7, 8] LittleEndian 0) 2
       = ([], Some EOF, mem_reader [7, 8] LittleEndian 0)"
proof -
  have h: "BytesLeftUntilLimit (mem_reader [7, 8] LittleEndian 0) \<le>s 0"
    by (simp add: BytesLeftUntilLimit_def mem_reader_simps)
  from Read_exhausted [OF h, of 2] h show ?thesis by simp
qed

text \<open>
  C6. Before the limit, a pull of \<open>N\<close> bytes asks the byte source for exactly
  \<open>min N (BytesLeftUntilLimit r)\<close> bytes, hands on what the source answers (bytes and
  error alike), and adds the number of bytes delivered to \<open>bytesRead\<close>.
\<close>

theorem Read_clamped:
  "\<not> BytesLeftUntilLimit r \<le>s 0 \<Longrightarrow>
     (let k = min N (nat (sint (BytesLeftUntilLimit r)))
      in int k \<le> int N \<and> int k \<le> sint (BytesLeftUntilLimit r)
         \<and> (case in_Read r (in_state r) k of (bs, err, s') \<Rightarrow>
              Read r N = (bs, err, r\<lparr>in_state := s',
                                      bytesRead := bytesRead r + word_of_int (int (length bs))\<rparr>)))"
  by (auto simp: Read_def Let_def min_def word_sle_eq split: prod.splits)

theorem Read_clamped_witness:
  "\<not> BytesLeftUntilLimit (mem_reader [7, 8, 9] LittleEndian 2) \<le>s 0
   \<and> Read (mem_reader [7, 8, 9] LittleEndian 2) 5
       = ([7, 8], None, (mem_reader [7, 8, 9] LittleEndian 2)\<lparr>in_state := [9], bytesRead := 2\<rparr>)"
proof -
  have h: "\<not> BytesLeftUntilLimit (mem_reader [7, 8, 9] LittleEndian 2) \<le>s 0"
    by (simp add: BytesLeftUntilLimit_def mem_reader_simps word_sle_eq)
  from Read_clamped [OF h, of 5] h show ?thesis
    by (simp add: BytesLeftUntilLimit_def mem_reader_simps bytes_Reader_def)
qed

subsection \<open>The discard loop of Skip\<close>

lemma LimitedReader_Read_fields:
  "LimitedReader_Read r lN p = (bs, e, r', lN') \<Longrightarrow>
     in_Read r' = in_Read r \<and> in_Scratch r' = in_Scratch r \<and> bo r' = bo r \<and> limit r' = limit r
     \<and> limitStack r' = limitStack r
     \<and> bytesRead r' = bytesRead r + word_of_int (int (length bs))
     \<and> lN' = lN - word_of_int (int (length bs))"
  by (auto simp: LimitedReader_Read_def Let_def split: if_splits prod.splits dest!: Read_fields)

lemma LimitedReader_Read_length:
  assumes "io_Reader_contract (in_Read r)" "LimitedReader_Read r lN p = (bs, e, r', lN')"
    and "0 \<le>s lN"
  shows "int (length bs) \<le> sint lN \<and> int (length bs) \<le> int p"
proof (cases "lN \<le>s 0")
  case True
  with assms(2,3) show ?thesis
    by (auto simp: LimitedReader_Read_def word_sle_eq)
next
  case False
  define k where "k = (if sint lN < int p then nat (sint lN) else p)"
  from False have k: "int k \<le> sint lN \<and> k \<le> p" by (auto simp: k_def word_sle_eq)
  from False assms(2) obtain r0 where "Read r k = (bs, e, r0)"
    by (auto simp: LimitedReader_Read_def Let_def k_def split: prod.splits)
  from Read_length [OF assms(1) this] k show ?thesis by auto
qed

lemma LimitedReader_Read_stalls:
  assumes "never_stalls (in_Read r)" "LimitedReader_Read r lN p = (bs, e, r', lN')" "0 < p"
  shows "bs \<noteq> [] \<or> e \<noteq> None"
proof (cases "lN \<le>s 0")
  case True
  with assms(2) show ?thesis by (auto simp: LimitedReader_Read_def)
next
  case False
  define k where "k = (if sint lN < int p then nat (sint lN) else p)"
  from False assms(3) have k: "0 < k" by (auto simp: k_def word_sle_eq)
  from False assms(2) obtain r0 where "Read r k = (bs, e, r0)"
    by (auto simp: LimitedReader_Read_def Let_def k_def split: prod.splits)
  from Read_stalls [OF assms(1) this k] show ?thesis .
qed

lemma discard_ReadFrom_fields:
  "discard_ReadFrom fuel r lN n = Some (w, e, r') \<Longrightarrow>
     in_Read r' = in_Read r \<and> in_Scratch r' = in_Scratch r \<and> bo r' = bo r \<and> limit r' = limit r
     \<and> limitStack r' = limitStack r
     \<and> bytesRead r' = bytesRead r + (w - n)"
proof (induction fuel arbitrary: r lN n)
  case 0
  then show ?case by simp
next
  case (Suc fuel)
  obtain bs err r1 lN1 where step: "LimitedReader_Read r lN 8192 = (bs, err, r1, lN1)"
    by (cases "LimitedReader_Read r lN 8192") auto
  note f = LimitedReader_Read_fields [OF step]
  show ?case
  proof (cases err)
    case None
    with Suc.prems step
    have "discard_ReadFrom fuel r1 lN1 (n + word_of_int (int (length bs))) = Some (w, e, r')"
      by (simp add: Let_def)
    from Suc.IH [OF this] f show ?thesis by simp
  next
    case (Some x)
    with Suc.prems step f show ?thesis by (auto simp: Let_def)
  qed
qed

lemma discard_ReadFrom_nonpos:
  "lN \<le>s 0 \<Longrightarrow> discard_ReadFrom (Suc fuel) r lN n = Some (n, None, r)"
  by (simp add: LimitedReader_Read_def)

lemma discard_ReadFrom_bound:
  assumes "io_Reader_contract (in_Read r)"
  shows "0 \<le>s lN \<Longrightarrow> discard_ReadFrom fuel r lN n = Some (w, e, r') \<Longrightarrow>
     0 \<le> sint (w - n) \<and> sint (w - n) \<le> sint lN"
  using assms
proof (induction fuel arbitrary: r lN n)
  case 0
  then show ?case by simp
next
  case (Suc fuel)
  obtain bs err r1 lN1 where step: "LimitedReader_Read r lN 8192 = (bs, err, r1, lN1)"
    by (cases "LimitedReader_Read r lN 8192") auto
  note f = LimitedReader_Read_fields [OF step]
  define d where "d = int (length bs)"
  from LimitedReader_Read_length [OF Suc.prems(3) step Suc.prems(1)]
  have len: "d \<le> sint lN" by (simp add: d_def)
  have d0: "0 \<le> d" by (simp add: d_def)
  from f have lN1: "lN1 = lN - word_of_int d" by (simp add: d_def)
  note bb = sint64_bounds [of lN]
  from len d0 bb have sd: "sint (word_of_int d :: int64) = d"
    by (intro sint64_of_int) linarith+
  with len d0 bb have s1: "sint lN1 = sint lN - d"
    unfolding lN1 by (subst sint64_diff) linarith+
  show ?case
  proof (cases err)
    case None
    with Suc.prems(2) step
    have rec: "discard_ReadFrom fuel r1 lN1 (n + word_of_int d) = Some (w, e, r')"
      by (simp add: Let_def d_def)
    from s1 len have "0 \<le>s lN1" by (simp add: word_sle_eq d_def)
    from Suc.IH [OF this rec] f Suc.prems(3)
    have ih: "0 \<le> sint (w - (n + word_of_int d))" "sint (w - (n + word_of_int d)) \<le> sint lN1"
      by simp_all
    have "w - n = (w - (n + word_of_int d)) + word_of_int d" by simp
    then have "sint (w - n) = sint ((w - (n + word_of_int d)) + word_of_int d)" by simp
    also have "\<dots> = sint (w - (n + word_of_int d)) + d"
      using ih s1 d0 len bb sd by (subst sint64_add) linarith+
    finally show ?thesis using ih s1 d0 by linarith
  next
    case (Some x)
    with Suc.prems(2) step have "w = n + word_of_int d" by (auto simp: Let_def d_def)
    then have "w - n = word_of_int d" by simp
    with d0 len sd show ?thesis by simp
  qed
qed

lemma discard_ReadFrom_terminates:
  assumes "io_Reader_contract (in_Read r)" "never_stalls (in_Read r)"
  shows "0 \<le>s lN \<Longrightarrow> nat (sint lN) < fuel \<Longrightarrow> discard_ReadFrom fuel r lN n \<noteq> None"
  using assms
proof (induction fuel arbitrary: r lN n)
  case 0
  then show ?case by simp
next
  case (Suc fuel)
  obtain bs err r1 lN1 where step: "LimitedReader_Read r lN 8192 = (bs, err, r1, lN1)"
    by (cases "LimitedReader_Read r lN 8192") auto
  note f = LimitedReader_Read_fields [OF step]
  define d where "d = int (length bs)"
  from LimitedReader_Read_length [OF Suc.prems(3) step Suc.prems(1)]
  have len: "d \<le> sint lN" by (simp add: d_def)
  have d0: "0 \<le> d" by (simp add: d_def)
  from f have lN1: "lN1 = lN - word_of_int d" by (simp add: d_def)
  note bb = sint64_bounds [of lN]
  from len d0 bb have sd: "sint (word_of_int d :: int64) = d"
    by (intro sint64_of_int) linarith+
  with len d0 bb have s1: "sint lN1 = sint lN - d"
    unfolding lN1 by (subst sint64_diff) linarith+
  show ?case
  proof (cases err)
    case None
    with LimitedReader_Read_stalls [OF Suc.prems(4) step] have "bs \<noteq> []" by simp
    then have "1 \<le> d" unfolding d_def by (cases bs) simp_all
    with s1 len Suc.prems(1,2) have "0 \<le>s lN1" "nat (sint lN1) < fuel"
      by (simp_all add: word_sle_eq d_def)
    from Suc.IH [OF this, of r1] f Suc.prems(3,4) None step show ?thesis
      by (simp add: Let_def)
  next
    case (Some x)
    with step show ?thesis by (simp add: Let_def)
  qed
qed


lemma Skip_insufficient:
  "BytesLeftUntilLimit r <s n \<Longrightarrow> Skip fuel r n = Some (Some ErrorInsufficientBytesLeft, r)"
  by (simp add: Skip_def)

lemma Skip_fields:
  assumes "Skip fuel r n = Some (e, r')"
  shows "in_Read r' = in_Read r \<and> in_Scratch r' = in_Scratch r \<and> bo r' = bo r \<and> limit r' = limit r
     \<and> limitStack r' = limitStack r"
proof (cases "BytesLeftUntilLimit r <s n")
  case True
  with assms show ?thesis by (simp add: Skip_def)
next
  case False
  with assms obtain w e0 where "discard_ReadFrom fuel r n 0 = Some (w, e0, r')"
    by (auto simp: Skip_def CopyN_def split: option.splits if_splits)
  from discard_ReadFrom_fields [OF this] show ?thesis by simp
qed

lemma Skip_ok_advances:
  assumes "io_Reader_contract (in_Read r)" "0 \<le>s n" "Skip fuel r n = Some (None, r')"
  shows "bytesRead r' = bytesRead r + n"
proof -
  from assms(3) have ns: "\<not> BytesLeftUntilLimit r <s n"
    by (auto simp: Skip_def split: if_splits)
  with assms(3) obtain w e0 where d: "discard_ReadFrom fuel r n 0 = Some (w, e0, r')"
    and ok: "w = n \<or> (\<not> w <s n \<and> e0 = None)"
    by (auto simp: Skip_def CopyN_def split: option.splits if_splits)
  from discard_ReadFrom_bound [OF assms(1,2) d] have "0 \<le> sint w" "sint w \<le> sint n"
    by simp_all
  with ok have "sint w = sint n" by (auto simp: word_sless_alt)
  then have "w = n" by (rule sint64_eqI)
  with discard_ReadFrom_fields [OF d] show ?thesis by simp
qed

lemma Skip_negative:
  assumes "n <s 0" "\<not> BytesLeftUntilLimit r <s n"
  shows "Skip (Suc fuel) r n = Some (None, r)"
proof -
  from assms(1) have "n \<le>s 0" "n \<noteq> 0" "\<not> 0 <s n" by (auto simp: word_sle_eq word_sless_alt)
  with assms(2) show ?thesis
    by (simp add: Skip_def CopyN_def discard_ReadFrom_nonpos del: discard_ReadFrom.simps)
qed

lemma Skip_terminates:
  assumes "io_Reader_contract (in_Read r)" "never_stalls (in_Read r)" "nat (sint n) < fuel"
  shows "Skip fuel r n \<noteq> None"
proof (cases "0 \<le>s n")
  case True
  from discard_ReadFrom_terminates [OF assms(1,2) True assms(3), of 0] show ?thesis
    by (auto simp: Skip_def CopyN_def split: option.splits)
next
  case False
  then have "n \<le>s 0" by (simp add: word_sle_eq)
  moreover from assms(3) obtain f where "fuel = Suc f" by (cases fuel) auto
  ultimately show ?thesis
    by (simp add: Skip_def CopyN_def discard_ReadFrom_nonpos del: discard_ReadFrom.simps)
qed

lemma discard_ReadFrom_supplied:
  "supplies (in_Read r) (in_state r) m \<Longrightarrow> 0 \<le>s lN \<Longrightarrow> nat (sint lN) \<le> m \<Longrightarrow>
     sint lN \<le> sint (BytesLeftUntilLimit r) \<Longrightarrow> nat (sint lN) < fuel \<Longrightarrow>
     \<exists>r'. discard_ReadFrom fuel r lN n = Some (n + lN, None, r')"
proof (induction fuel arbitrary: r lN n m)
  case 0
  then show ?case by simp
next
  case (Suc fuel)
  show ?case
  proof (cases "lN \<le>s 0")
    case True
    with Suc.prems(2) have "sint lN = sint (0 :: int64)" by (simp add: word_sle_eq)
    then have "lN = 0" by (rule sint64_eqI)
    with discard_ReadFrom_nonpos [OF True, of fuel r n] show ?thesis by simp
  next
    case False
    then have pos: "0 < sint lN" by (simp add: word_sle_eq)
    define k where "k = (if sint lN < int 8192 then nat (sint lN) else 8192)"
    from pos have k: "0 < k" "int k \<le> sint lN" by (auto simp: k_def)
    from Suc.prems(1,3) pos
    have "\<forall>k. 0 < k \<longrightarrow>
       (\<exists>bs s'. in_Read r (in_state r) k = (bs, None, s') \<and> bs \<noteq> [] \<and> length bs \<le> k
                \<and> supplies (in_Read r) s' (m - length bs))"
      by (cases rule: supplies.cases) auto
    with k(1) obtain bs s' where src: "in_Read r (in_state r) k = (bs, None, s')"
      and bs: "bs \<noteq> []" "length bs \<le> k" and rest: "supplies (in_Read r) s' (m - length bs)"
      by blast
    define d where "d = int (length bs)"
    from bs have d: "1 \<le> d" "d \<le> int k" unfolding d_def by (cases bs; simp)+
    define r1 where "r1 = r\<lparr>in_state := s', bytesRead := bytesRead r + word_of_int d\<rparr>"
    from k(2) pos Suc.prems(4) have ne: "\<not> BytesLeftUntilLimit r \<le>s 0"
      "\<not> sint (BytesLeftUntilLimit r) < int k"
      by (simp_all add: word_sle_eq)
    with src have rd: "Read r k = (bs, None, r1)"
      by (simp add: Read_def Let_def r1_def d_def)
    with False have lr: "LimitedReader_Read r lN 8192 = (bs, None, r1, lN - word_of_int d)"
      by (simp add: LimitedReader_Read_def Let_def k_def d_def)
    note bb = sint64_bounds [of lN] sint64_bounds [of "BytesLeftUntilLimit r"]
    from d k(2) bb have sd: "sint (word_of_int d :: int64) = d"
      by (intro sint64_of_int) linarith+
    with d k(2) bb have s1: "sint (lN - word_of_int d) = sint lN - d"
      by (subst sint64_diff) linarith+
    have "BytesLeftUntilLimit r1 = BytesLeftUntilLimit r - word_of_int d"
      by (simp add: BytesLeftUntilLimit_def r1_def)
    moreover from sd d k(2) Suc.prems(4) bb
    have "sint (BytesLeftUntilLimit r - word_of_int d) = sint (BytesLeftUntilLimit r) - d"
      by (subst sint64_diff) linarith+
    ultimately have s2: "sint (BytesLeftUntilLimit r1) = sint (BytesLeftUntilLimit r) - d"
      by simp
    have a1: "supplies (in_Read r1) (in_state r1) (m - length bs)"
      using rest by (simp add: r1_def)
    have a2: "0 \<le>s lN - word_of_int d"
      using s1 d k(2) by (simp add: word_sle_eq)
    have a3: "nat (sint (lN - word_of_int d)) \<le> m - length bs"
      using s1 Suc.prems(3) d unfolding d_def by linarith
    have a4: "sint (lN - word_of_int d) \<le> sint (BytesLeftUntilLimit r1)"
      using s1 s2 Suc.prems(4) by linarith
    have a5: "nat (sint (lN - word_of_int d)) < fuel"
      using s1 Suc.prems(5) d pos by linarith
    from Suc.IH [OF a1 a2 a3 a4 a5, of "n + word_of_int d"] lr show ?thesis
      by (simp add: Let_def d_def)
  qed
qed

lemma Skip_supplied:
  assumes "\<not> BytesLeftUntilLimit r <s n" and "0 \<le>s n"
    and "supplies (in_Read r) (in_state r) (nat (sint n))" and "nat (sint n) < fuel"
  shows "\<exists>r'. Skip fuel r n = Some (None, r') \<and> bytesRead r' = bytesRead r + n"
proof -
  from assms(1) have "sint n \<le> sint (BytesLeftUntilLimit r)" by (simp add: word_sless_alt)
  from discard_ReadFrom_supplied [OF assms(3,2) _ this assms(4), of 0]
  obtain r' where d: "discard_ReadFrom fuel r n 0 = Some (n, None, r')" by auto
  from discard_ReadFrom_fields [OF d] have "bytesRead r' = bytesRead r + n" by simp
  with d assms(1) show ?thesis by (simp add: Skip_def CopyN_def)
qed

lemma discard_ReadFrom_pulled_eq:
  "discard_ReadFrom fuel r lN n = Some (w, e, r') \<Longrightarrow>
     w = n + word_of_nat (discard_ReadFrom_pulled fuel r lN)"
proof (induction fuel arbitrary: r lN n)
  case 0
  then show ?case by simp
next
  case (Suc fuel)
  obtain bs err r1 lN1 where step: "LimitedReader_Read r lN 8192 = (bs, err, r1, lN1)"
    by (cases "LimitedReader_Read r lN 8192") auto
  show ?case
  proof (cases err)
    case None
    with Suc.prems step
    have "discard_ReadFrom fuel r1 lN1 (n + word_of_int (int (length bs))) = Some (w, e, r')"
      by (simp add: Let_def)
    from Suc.IH [OF this] step None show ?thesis by simp
  next
    case (Some x)
    with Suc.prems step show ?thesis by (auto simp: Let_def)
  qed
qed

lemma Skip_pulled_eq:
  assumes "Skip fuel r n = Some (e, r')"
  shows "bytesRead r' = bytesRead r + word_of_nat (Skip_pulled fuel r n)"
proof (cases "BytesLeftUntilLimit r <s n")
  case True
  with assms show ?thesis by (simp add: Skip_def Skip_pulled_def)
next
  case False
  with assms obtain w e0 where d: "discard_ReadFrom fuel r n 0 = Some (w, e0, r')"
    by (auto simp: Skip_def CopyN_def split: option.splits if_splits)
  from discard_ReadFrom_fields [OF d] discard_ReadFrom_pulled_eq [OF d] False
  show ?thesis by (simp add: Skip_pulled_def)
qed

text \<open>
  C4. \<open>Skip r n\<close> returns \<open>ErrorInsufficientBytesLeft\<close> and leaves the reader as it
  was when \<open>n\<close> exceeds \<open>BytesLeftUntilLimit r\<close>. Otherwise, for \<open>0 \<le> n\<close> and a byte
  source that supplies \<open>n\<close> more bytes, \<open>Skip\<close> returns without an error (given fuel
  for the reads it issues) and \<open>bytesRead\<close> has grown by exactly \<open>n\<close>.
\<close>

theorem Skip_all_or_nothing:
  "(BytesLeftUntilLimit r <s n \<longrightarrow> Skip fuel r n = Some (Some ErrorInsufficientBytesLeft, r))
   \<and> (\<not> BytesLeftUntilLimit r <s n \<and> 0 \<le>s n
        \<and> supplies (in_Read r) (in_state r) (nat (sint n)) \<and> nat (sint n) < fuel \<longrightarrow>
        (\<exists>r'. Skip fuel r n = Some (None, r') \<and> bytesRead r' = bytesRead r + n))"
  using Skip_insufficient [of r n fuel] Skip_supplied [of r n fuel] by blast

theorem Skip_all_or_nothing_witness:
  "BytesLeftUntilLimit (mem_reader [1, 2, 3, 4] LittleEndian 10) <s 11
   \<and> Skip 5 (mem_reader [1, 2, 3, 4] LittleEndian 10) 11
       = Some (Some ErrorInsufficientBytesLeft, mem_reader [1, 2, 3, 4] LittleEndian 10)
   \<and> \<not> BytesLeftUntilLimit (mem_reader [1, 2, 3, 4] LittleEndian 10) <s 3
   \<and> 0 \<le>s (3 :: int64)
   \<and> supplies (in_Read (mem_reader [1, 2, 3, 4] LittleEndian 10))
        (in_state (mem_reader [1, 2, 3, 4] LittleEndian 10)) (nat (sint (3 :: int64)))
   \<and> nat (sint (3 :: int64)) < 5
   \<and> Skip 5 (mem_reader [1, 2, 3, 4] LittleEndian 10) 3
       = Some (None, (mem_reader [1, 2, 3, 4] LittleEndian 10)\<lparr>in_state := [4], bytesRead := 3\<rparr>)
   \<and> bytesRead ((mem_reader [1, 2, 3, 4] LittleEndian 10)\<lparr>in_state := [4], bytesRead := 3\<rparr>)
       = bytesRead (mem_reader [1, 2, 3, 4] LittleEndian 10) + 3"
proof -
  let ?r = "mem_reader [1, 2, 3, 4] LittleEndian 10"
  have a: "BytesLeftUntilLimit ?r <s 11" "\<not> BytesLeftUntilLimit ?r <s 3" "0 \<le>s (3 :: int64)"
    "nat (sint (3 :: int64)) < 5"
    by (simp_all add: BytesLeftUntilLimit_def mem_reader_simps word_sless_alt word_sle_eq)
  have b: "supplies (in_Read ?r) (in_state ?r) (nat (sint (3 :: int64)))"
    by (simp add: mem_reader_simps bytes_Reader_supplies)
  have s: "Skip 5 ?r 3 = Some (None, ?r\<lparr>in_state := [4], bytesRead := 3\<rparr>)"
    by (simp add: eval_simps)
  from Skip_all_or_nothing [of ?r 11 5] Skip_all_or_nothing [of ?r 3 5] a b s
  show ?thesis by simp
qed

text \<open>
  The claim as stated fails: with 10 bytes left before the limit, skipping 3 over a
  source at its end returns \<open>io.EOF\<close>; and skipping \<open>-1\<close> succeeds and consumes nothing.
\<close>

theorem Skip_claim_counterexample:
  "\<not> BytesLeftUntilLimit (mem_reader [] LittleEndian 10) <s 3
   \<and> Skip 5 (mem_reader [] LittleEndian 10) 3 = Some (Some EOF, mem_reader [] LittleEndian 10)
   \<and> \<not> BytesLeftUntilLimit (mem_reader [1, 2] LittleEndian 10) <s - 1
   \<and> Skip 5 (mem_reader [1, 2] LittleEndian 10) (- 1) = Some (None, mem_reader [1, 2] LittleEndian 10)
   \<and> bytesRead (mem_reader [1, 2] LittleEndian 10) \<noteq> bytesRead (mem_reader [1, 2] LittleEndian 10) + (- 1)"
  by (simp add: eval_simps)

subsection \<open>Entering and leaving a scope\<close>

text \<open>
  \<open>PushLimit\<close> on the \<open>int64\<close> sum the code computes: an error and an unchanged
  reader if \<open>bytesRead r + n\<close>, wrapped to 64 bits, is greater than the limit;
  otherwise the old limit goes onto the stack and the wrapped sum becomes the limit.
\<close>

lemma PushLimit_eq:
  "(limit r <s bytesRead r + n \<longrightarrow>
      PushLimit r n = (Some (ErrNewLimitExceeds (bytesRead r + n) (limit r)), r))
   \<and> (\<not> limit r <s bytesRead r + n \<longrightarrow>
      PushLimit r n =
        (None, r\<lparr>limitStack := limitStack r @ [limit r], limit := bytesRead r + n\<rparr>))"
  by (simp add: PushLimit_def Let_def)

text \<open>
  C3. \<open>PushLimit\<close> is to fail, leaving the reader unchanged, whenever \<open>bytesRead + n\<close>
  exceeds the limit. Where the sum overflows \<open>int64\<close> the code does not: after 5 of 10
  bytes, \<open>PushLimit\<close> of \<open>2^63 - 1\<close> (the sum, far above 10, wraps to a negative
  value) returns no error, pushes 10 and sets the limit to \<open>-9223372036854775804\<close>;
  \<open>BytesLeftUntilLimit\<close> is then \<open>2^63 - 1\<close>, and a read of 8 bytes runs to byte 13,
  past the enclosing limit of 10.
\<close>

theorem PushLimit_overflow_accepted:
  "Read (mem_reader [1, 2, 3, 4, 5, 6, 7, 8, 9, 10, 11, 12, 13] LittleEndian 10) 5
     = ([1, 2, 3, 4, 5], None,
        (mem_reader [1, 2, 3, 4, 5, 6, 7, 8, 9, 10, 11, 12, 13] LittleEndian 10)
          \<lparr>in_state := [6, 7, 8, 9, 10, 11, 12, 13], bytesRead := 5\<rparr>)
   \<and> sint (limit (mem_reader [1, 2, 3, 4, 5, 6, 7, 8, 9, 10, 11, 12, 13] LittleEndian 10))
        < sint (5 :: int64) + sint (9223372036854775807 :: int64)
   \<and> PushLimit ((mem_reader [1, 2, 3, 4, 5, 6, 7, 8, 9, 10, 11, 12, 13] LittleEndian 10)
          \<lparr>in_state := [6, 7, 8, 9, 10, 11, 12, 13], bytesRead := 5\<rparr>) 9223372036854775807
     = (None, (mem_reader [1, 2, 3, 4, 5, 6, 7, 8, 9, 10, 11, 12, 13] LittleEndian 10)
          \<lparr>in_state := [6, 7, 8, 9, 10, 11, 12, 13], bytesRead := 5,
            limitStack := [10], limit := - 9223372036854775804\<rparr>)
   \<and> BytesLeftUntilLimit ((mem_reader [1, 2, 3, 4, 5, 6, 7, 8, 9, 10, 11, 12, 13] LittleEndian 10)
          \<lparr>in_state := [6, 7, 8, 9, 10, 11, 12, 13], bytesRead := 5,
            limitStack := [10], limit := - 9223372036854775804\<rparr>) = 9223372036854775807
   \<and> Read ((mem_reader [1, 2, 3, 4, 5, 6, 7, 8, 9, 10, 11, 12, 13] LittleEndian 10)
          \<lparr>in_state := [6, 7, 8, 9, 10, 11, 12, 13], bytesRead := 5,
            limitStack := [10], limit := - 9223372036854775804\<rparr>) 8
     = ([6, 7, 8, 9, 10, 11, 12, 13], None,
        (mem_reader [1, 2, 3, 4, 5, 6, 7, 8, 9, 10, 11, 12, 13] LittleEndian 10)
          \<lparr>in_state := [], bytesRead := 13,
            limitStack := [10], limit := - 9223372036854775804\<rparr>)"
  by (simp add: eval_simps)

lemma PopLimit_fields:
  assumes "PopLimit fuel r = Some res" "limitStack r \<noteq> []"
  shows "\<exists>r'. res = Inr r' \<and> limit r' = last (limitStack r)
           \<and> limitStack r' = butlast (limitStack r) \<and> in_Read r' = in_Read r \<and> bo r' = bo r"
proof -
  from assms(1) obtain r1 where r1: "(if bytesRead r <s limit r
            then map_option snd (Skip fuel r (limit r - bytesRead r))
            else Some r) = Some r1"
    by (auto simp: PopLimit_def split: option.splits)
  then have f: "limitStack r1 = limitStack r \<and> in_Read r1 = in_Read r \<and> bo r1 = bo r"
    by (auto split: if_splits dest: Skip_fields)
  with assms(2) have "0 < length (limitStack r1)" by simp
  with assms(1) r1 f assms(2) show ?thesis
    by (auto simp: PopLimit_def Let_def last_conv_nth butlast_conv_take nat_diff_distrib' simp del: length_greater_0_conv)
qed

text \<open>
  C10. With an empty limit stack and the cursor at or past the limit, \<open>PopLimit\<close> does
  not return: it panics on the index \<open>-1\<close> into the stack, whatever the fuel.
\<close>

theorem PopLimit_empty_stack_panics:
  "limitStack r = [] \<Longrightarrow> limit r \<le>s bytesRead r \<Longrightarrow>
     PopLimit fuel r = Some (Inl (IndexOutOfRange, r))"
  by (simp add: PopLimit_def word_sle_eq word_sless_alt)

theorem PopLimit_empty_stack_panics_witness:
  "limitStack (mem_reader [7] LittleEndian 0) = []
   \<and> limit (mem_reader [7] LittleEndian 0) \<le>s bytesRead (mem_reader [7] LittleEndian 0)
   \<and> PopLimit 3 (mem_reader [7] LittleEndian 0)
       = Some (Inl (IndexOutOfRange, mem_reader [7] LittleEndian 0))"
proof -
  have a: "limitStack (mem_reader [7] LittleEndian 0) = []"
    by (simp add: mem_reader_simps)
  have b: "limit (mem_reader [7] LittleEndian 0) \<le>s bytesRead (mem_reader [7] LittleEndian 0)"
    by (simp add: mem_reader_simps)
  from PopLimit_empty_stack_panics [OF a b, of 3] a b show ?thesis by simp
qed

lemma PopLimit_at_limit:
  assumes "limitStack r \<noteq> []"
    and "bytesRead r \<le>s limit r" and "0 \<le>s BytesLeftUntilLimit r"
    and "supplies (in_Read r) (in_state r) (nat (sint (BytesLeftUntilLimit r)))"
    and "nat (sint (BytesLeftUntilLimit r)) < fuel"
  shows "\<exists>r'. PopLimit fuel r = Some (Inr r') \<and> bytesRead r' = limit r
           \<and> limit r' = last (limitStack r) \<and> limitStack r' = butlast (limitStack r)"
proof (cases "bytesRead r <s limit r")
  case True
  have "\<not> BytesLeftUntilLimit r <s BytesLeftUntilLimit r" by (simp add: word_sless_alt)
  from Skip_supplied [OF this assms(3,4,5)]
  obtain r1 where sk: "Skip fuel r (limit r - bytesRead r) = Some (None, r1)"
    and b: "bytesRead r1 = limit r"
    by (auto simp: BytesLeftUntilLimit_def)
  from Skip_fields [OF sk] assms(1) have "limitStack r1 = limitStack r" "0 < length (limitStack r1)"
    by simp_all
  with True sk b assms(1) show ?thesis
    by (simp add: PopLimit_def Let_def last_conv_nth butlast_conv_take nat_diff_distrib'
          del: length_greater_0_conv)
next
  case False
  with assms(2) have "sint (bytesRead r) = sint (limit r)"
    by (simp add: word_sle_eq word_sless_alt)
  then have "bytesRead r = limit r" by (rule sint64_eqI)
  moreover from assms(1) have "0 < length (limitStack r)" by simp
  ultimately show ?thesis using False assms(1)
    by (simp add: PopLimit_def Let_def last_conv_nth butlast_conv_take nat_diff_distrib'
          del: length_greater_0_conv)
qed

text \<open>
  C1. For a reader with a non-empty limit stack whose cursor has not passed the limit
  (\<open>bytesRead \<le> limit\<close>, the remaining count not negative) over a byte source that
  supplies the bytes remaining in the scope: \<open>PopLimit\<close> returns (given fuel for the
  reads of its skip), \<open>bytesRead\<close> is the limit of the scope just left, and the limit
  before the matching push is restored.
\<close>

theorem PopLimit_lands_on_limit:
  assumes "limitStack r \<noteq> []"
    and "bytesRead r \<le>s limit r" and "0 \<le>s BytesLeftUntilLimit r"
    and "supplies (in_Read r) (in_state r) (nat (sint (BytesLeftUntilLimit r)))"
    and "nat (sint (BytesLeftUntilLimit r)) < fuel"
  shows "\<exists>r'. PopLimit fuel r = Some (Inr r') \<and> bytesRead r' = limit r
           \<and> limit r' = last (limitStack r) \<and> limitStack r' = butlast (limitStack r)"
  using assms by (rule PopLimit_at_limit)

theorem PopLimit_lands_on_limit_witness:
  "limitStack ((mem_reader [1, 2, 3, 4, 5, 6] LittleEndian 10)\<lparr>limit := 4, limitStack := [10]\<rparr>) \<noteq> []
   \<and> bytesRead ((mem_reader [1, 2, 3, 4, 5, 6] LittleEndian 10)\<lparr>limit := 4, limitStack := [10]\<rparr>)
        \<le>s limit ((mem_reader [1, 2, 3, 4, 5, 6] LittleEndian 10)\<lparr>limit := 4, limitStack := [10]\<rparr>)
   \<and> 0 \<le>s BytesLeftUntilLimit
              ((mem_reader [1, 2, 3, 4, 5, 6] LittleEndian 10)\<lparr>limit := 4, limitStack := [10]\<rparr>)
   \<and> supplies bytes_Reader [1, 2, 3, 4, 5, 6] 4
   \<and> PopLimit 5 ((mem_reader [1, 2, 3, 4, 5, 6] LittleEndian 10)\<lparr>limit := 4, limitStack := [10]\<rparr>)
        = Some (Inr ((mem_reader [1, 2, 3, 4, 5, 6] LittleEndian 10)\<lparr>in_state := [5, 6], bytesRead := 4\<rparr>))
   \<and> bytesRead ((mem_reader [1, 2, 3, 4, 5, 6] LittleEndian 10)\<lparr>in_state := [5, 6], bytesRead := 4\<rparr>)
        = limit ((mem_reader [1, 2, 3, 4, 5, 6] LittleEndian 10)\<lparr>limit := 4, limitStack := [10]\<rparr>)"
proof -
  let ?r = "(mem_reader [1, 2, 3, 4, 5, 6] LittleEndian 10)\<lparr>limit := 4, limitStack := [10]\<rparr>"
  have l: "BytesLeftUntilLimit ?r = 4"
    by (simp add: BytesLeftUntilLimit_def mem_reader_simps)
  have a: "limitStack ?r \<noteq> []" "bytesRead ?r \<le>s limit ?r" "0 \<le>s BytesLeftUntilLimit ?r"
    by (simp_all add: mem_reader_simps BytesLeftUntilLimit_def word_sle_eq)
  have b: "supplies bytes_Reader [1, 2, 3, 4, 5, 6] 4"
    by (simp add: bytes_Reader_supplies)
  then have b': "supplies (in_Read ?r) (in_state ?r) (nat (sint (BytesLeftUntilLimit ?r)))"
    by (simp add: l mem_reader_simps)
  have f: "nat (sint (BytesLeftUntilLimit ?r)) < 5" by (simp add: l)
  have p: "PopLimit 5 ?r
      = Some (Inr ((mem_reader [1, 2, 3, 4, 5, 6] LittleEndian 10)\<lparr>in_state := [5, 6], bytesRead := 4\<rparr>))"
    by (simp add: eval_simps)
  from PopLimit_lands_on_limit [OF a b' f] a b p show ?thesis
    by (simp add: mem_reader_simps)
qed

text \<open>
  The claim as stated fails. Over a source at its end the skip inside \<open>PopLimit\<close> fails,
  the error is dropped, and \<open>PopLimit\<close> returns with \<open>bytesRead = 0\<close> although the
  scope just left had its limit at 4. And after 5 bytes, \<open>PushLimit\<close> of \<open>-2\<close> is
  accepted and puts the limit at 3, behind the cursor: \<open>PopLimit\<close> returns with
  \<open>bytesRead\<close> still 5.
\<close>

theorem PopLimit_claim_counterexample:
  "limitStack ((mem_reader [] LittleEndian 10)\<lparr>limit := 4, limitStack := [10]\<rparr>) \<noteq> []
   \<and> PushLimit (mem_reader [] LittleEndian 10) 4
        = (None, (mem_reader [] LittleEndian 10)\<lparr>limit := 4, limitStack := [10]\<rparr>)
   \<and> PopLimit 3 ((mem_reader [] LittleEndian 10)\<lparr>limit := 4, limitStack := [10]\<rparr>)
        = Some (Inr (mem_reader [] LittleEndian 10))
   \<and> bytesRead (mem_reader [] LittleEndian 10) = 0
   \<and> Read (mem_reader [1, 2, 3, 4, 5, 6] LittleEndian 10) 5
        = ([1, 2, 3, 4, 5], None,
           (mem_reader [1, 2, 3, 4, 5, 6] LittleEndian 10)\<lparr>in_state := [6], bytesRead := 5\<rparr>)
   \<and> PushLimit ((mem_reader [1, 2, 3, 4, 5, 6] LittleEndian 10)\<lparr>in_state := [6], bytesRead := 5\<rparr>)
          (- 2)
        = (None, (mem_reader [1, 2, 3, 4, 5, 6] LittleEndian 10)
                   \<lparr>in_state := [6], bytesRead := 5, limit := 3, limitStack := [10]\<rparr>)
   \<and> PopLimit 3 ((mem_reader [1, 2, 3, 4, 5, 6] LittleEndian 10)
                   \<lparr>in_state := [6], bytesRead := 5, limit := 3, limitStack := [10]\<rparr>)
        = Some (Inr ((mem_reader [1, 2, 3, 4, 5, 6] LittleEndian 10)
                   \<lparr>in_state := [6], bytesRead := 5\<rparr>))"
  by (simp add: eval_simps)

lemma PushLimit_ok:
  "PushLimit r n = (None, r1) \<Longrightarrow>
     r1 = r\<lparr>limitStack := limitStack r @ [limit r], limit := bytesRead r + n\<rparr>"
  by (auto simp: PushLimit_def Let_def split: if_splits)

text \<open>
  C2. After a successful \<open>PushLimit r n\<close> with \<open>0 \<le> n\<close> and \<open>bytesRead r + n\<close> not
  overflowing, over a byte source that supplies \<open>n\<close> more bytes, an immediate
  \<open>PopLimit\<close> returns (given fuel for the reads of its skip), \<open>bytesRead\<close> has grown by
  exactly \<open>n\<close>, and the limit and the stack of before the push are restored. The limit
  and the stack are restored for every \<open>n\<close> and over every source within the
  \<open>io.Reader\<close> contract that never stalls.
\<close>

theorem PushLimit_then_PopLimit:
  assumes "PushLimit r n = (None, r1)"
  shows "(0 \<le>s n \<and> bytesRead r \<le>s bytesRead r + n
            \<and> supplies (in_Read r) (in_state r) (nat (sint n)) \<and> nat (sint n) < fuel \<longrightarrow>
            (\<exists>r'. PopLimit fuel r1 = Some (Inr r') \<and> bytesRead r' = bytesRead r + n
                  \<and> limit r' = limit r \<and> limitStack r' = limitStack r))
       \<and> (io_Reader_contract (in_Read r) \<and> never_stalls (in_Read r) \<and> nat (sint n) < fuel \<longrightarrow>
            (\<exists>r'. PopLimit fuel r1 = Some (Inr r')
                  \<and> limit r' = limit r \<and> limitStack r' = limitStack r))"
proof (intro conjI impI)
  note r1 = PushLimit_ok [OF assms]
  then have st: "limitStack r1 \<noteq> []" "last (limitStack r1) = limit r"
    "butlast (limitStack r1) = limitStack r" by simp_all
  from r1 have f: "in_Read r1 = in_Read r" "in_state r1 = in_state r"
    "bytesRead r1 = bytesRead r" "limit r1 = bytesRead r + n"
    by simp_all
  have d: "BytesLeftUntilLimit r1 = n" by (simp add: f BytesLeftUntilLimit_def)
  { assume h: "0 \<le>s n \<and> bytesRead r \<le>s bytesRead r + n
            \<and> supplies (in_Read r) (in_state r) (nat (sint n)) \<and> nat (sint n) < fuel"
    then have "bytesRead r1 \<le>s limit r1" "0 \<le>s BytesLeftUntilLimit r1"
      "supplies (in_Read r1) (in_state r1) (nat (sint (BytesLeftUntilLimit r1)))"
      "nat (sint (BytesLeftUntilLimit r1)) < fuel"
      by (simp_all add: f d)
    from PopLimit_at_limit [OF st(1) this] f st
    show "\<exists>r'. PopLimit fuel r1 = Some (Inr r') \<and> bytesRead r' = bytesRead r + n
                  \<and> limit r' = limit r \<and> limitStack r' = limitStack r"
      by auto }
  { assume h: "io_Reader_contract (in_Read r) \<and> never_stalls (in_Read r) \<and> nat (sint n) < fuel"
    with Skip_terminates [of r1 n fuel] have "Skip fuel r1 n \<noteq> None" by (simp add: f)
    then have "PopLimit fuel r1 \<noteq> None"
      using d by (auto simp: PopLimit_def BytesLeftUntilLimit_def Let_def split: option.splits)
    then obtain res where "PopLimit fuel r1 = Some res" by auto
    from this PopLimit_fields [OF this st(1)] st
    show "\<exists>r'. PopLimit fuel r1 = Some (Inr r')
                  \<and> limit r' = limit r \<and> limitStack r' = limitStack r"
      by auto }
qed

theorem PushLimit_then_PopLimit_witness:
  "PushLimit (mem_reader [1, 2, 3, 4, 5, 6] LittleEndian 10) 4
        = (None, (mem_reader [1, 2, 3, 4, 5, 6] LittleEndian 10)\<lparr>limit := 4, limitStack := [10]\<rparr>)
   \<and> 0 \<le>s (4 :: int64)
   \<and> bytesRead (mem_reader [1, 2, 3, 4, 5, 6] LittleEndian 10)
        \<le>s bytesRead (mem_reader [1, 2, 3, 4, 5, 6] LittleEndian 10) + 4
   \<and> supplies bytes_Reader [1, 2, 3, 4, 5, 6] (nat (sint (4 :: int64)))
   \<and> io_Reader_contract bytes_Reader \<and> never_stalls bytes_Reader
   \<and> nat (sint (4 :: int64)) < 5
   \<and> PopLimit 5 ((mem_reader [1, 2, 3, 4, 5, 6] LittleEndian 10)\<lparr>limit := 4, limitStack := [10]\<rparr>)
        = Some (Inr ((mem_reader [1, 2, 3, 4, 5, 6] LittleEndian 10)\<lparr>in_state := [5, 6], bytesRead := 4\<rparr>))
   \<and> bytesRead ((mem_reader [1, 2, 3, 4, 5, 6] LittleEndian 10)\<lparr>in_state := [5, 6], bytesRead := 4\<rparr>)
        = bytesRead (mem_reader [1, 2, 3, 4, 5, 6] LittleEndian 10) + 4
   \<and> limit ((mem_reader [1, 2, 3, 4, 5, 6] LittleEndian 10)\<lparr>in_state := [5, 6], bytesRead := 4\<rparr>)
        = limit (mem_reader [1, 2, 3, 4, 5, 6] LittleEndian 10)"
proof -
  let ?r = "mem_reader [1, 2, 3, 4, 5, 6] LittleEndian 10"
  let ?r1 = "?r\<lparr>limit := 4, limitStack := [10]\<rparr>"
  have p: "PushLimit ?r 4 = (None, ?r1)" by (simp add: eval_simps)
  have a: "0 \<le>s (4 :: int64)" "bytesRead ?r \<le>s bytesRead ?r + 4" "nat (sint (4 :: int64)) < 5"
    by (simp_all add: mem_reader_simps word_sle_eq)
  have b: "supplies bytes_Reader [1, 2, 3, 4, 5, 6] (nat (sint (4 :: int64)))"
    "io_Reader_contract bytes_Reader" "never_stalls bytes_Reader"
    by (simp_all add: bytes_Reader_supplies bytes_Reader_contract bytes_Reader_never_stalls)
  have q: "PopLimit 5 ?r1 = Some (Inr (?r\<lparr>in_state := [5, 6], bytesRead := 4\<rparr>))"
    by (simp add: eval_simps)
  from PushLimit_then_PopLimit [OF p, of 5] p a b q show ?thesis
    by (simp add: mem_reader_simps)
qed

text \<open>
  The claim as stated fails. Over a source at its end, \<open>PushLimit\<close> of 4 succeeds and
  the \<open>PopLimit\<close> after it returns with \<open>bytesRead\<close> still 0, not 4. After 5 bytes,
  \<open>PushLimit\<close> of \<open>-2\<close> succeeds and the \<open>PopLimit\<close> after it leaves \<open>bytesRead\<close> at
  5, not 3; and \<open>PushLimit\<close> of \<open>2^63 - 1\<close> succeeds (the sum overflows) and the
  \<open>PopLimit\<close> after it leaves \<open>bytesRead\<close> at 5.
\<close>

theorem PushLimit_then_PopLimit_counterexample:
  "PushLimit (mem_reader [] LittleEndian 10) 4
     = (None, (mem_reader [] LittleEndian 10)\<lparr>limit := 4, limitStack := [10]\<rparr>)
   \<and> PopLimit 3 ((mem_reader [] LittleEndian 10)\<lparr>limit := 4, limitStack := [10]\<rparr>)
        = Some (Inr (mem_reader [] LittleEndian 10))
   \<and> bytesRead (mem_reader [] LittleEndian 10) \<noteq> bytesRead (mem_reader [] LittleEndian 10) + 4
   \<and> Read (mem_reader [1, 2, 3, 4, 5, 6] LittleEndian 10) 5
        = ([1, 2, 3, 4, 5], None,
           (mem_reader [1, 2, 3, 4, 5, 6] LittleEndian 10)\<lparr>in_state := [6], bytesRead := 5\<rparr>)
   \<and> PushLimit ((mem_reader [1, 2, 3, 4, 5, 6] LittleEndian 10)\<lparr>in_state := [6], bytesRead := 5\<rparr>)
          (- 2)
        = (None, (mem_reader [1, 2, 3, 4, 5, 6] LittleEndian 10)
                   \<lparr>in_state := [6], bytesRead := 5, limit := 3, limitStack := [10]\<rparr>)
   \<and> PopLimit 3 ((mem_reader [1, 2, 3, 4, 5, 6] LittleEndian 10)
                   \<lparr>in_state := [6], bytesRead := 5, limit := 3, limitStack := [10]\<rparr>)
        = Some (Inr ((mem_reader [1, 2, 3, 4, 5, 6] LittleEndian 10)
                   \<lparr>in_state := [6], bytesRead := 5\<rparr>))
   \<and> PushLimit ((mem_reader [1, 2, 3, 4, 5, 6] LittleEndian 10)\<lparr>in_state := [6], bytesRead := 5\<rparr>)
          9223372036854775807
        = (None, (mem_reader [1, 2, 3, 4, 5, 6] LittleEndian 10)
                   \<lparr>in_state := [6], bytesRead := 5, limit := - 9223372036854775804,
                     limitStack := [10]\<rparr>)
   \<and> PopLimit 3 ((mem_reader [1, 2, 3, 4, 5, 6] LittleEndian 10)
                   \<lparr>in_state := [6], bytesRead := 5, limit := - 9223372036854775804,
                     limitStack := [10]\<rparr>)
        = Some (Inr ((mem_reader [1, 2, 3, 4, 5, 6] LittleEndian 10)
                   \<lparr>in_state := [6], bytesRead := 5\<rparr>))"
  by (simp add: eval_simps)

subsection \<open>Exact-count reads\<close>

lemma length_overlay: "length (overlay scr ys) = length ys"
  by (induction scr ys rule: overlay.induct) (simp_all split: option.splits)

lemma length_write_at: "length (write_at buf n bs scr) = length buf"
  by (simp add: write_at_def length_overlay)

lemma write_at_prefix:
  "n + length bs \<le> length buf \<Longrightarrow> take (n + length bs) (write_at buf n bs scr) = take n buf @ bs"
  by (simp add: write_at_def length_overlay)

lemma write_at_no_scratch:
  "n + length bs \<le> length buf \<Longrightarrow> write_at buf n bs [] = take n buf @ bs @ drop (n + length bs) buf"
  by (simp add: write_at_def)

lemma Read_scratch_none: "in_Scratch r = no_scratch \<Longrightarrow> Read_scratch r lenp = []"
  by (simp add: Read_scratch_def no_scratch_def Let_def split: prod.splits)

lemma ReadAtLeast_loop_done:
  "\<not> (n < mn \<and> err = None) \<Longrightarrow> ReadAtLeast_loop fuel r buf mn n err = Some (buf, n, err, r)"
  by (cases fuel) auto

lemma ReadAtLeast_pulled_done:
  "\<not> (n < mn \<and> err = None) \<Longrightarrow> ReadAtLeast_pulled fuel r lenbuf mn n err = []"
  by (cases fuel) auto

lemma ReadAtLeast_loop_exit:
  "ReadAtLeast_loop fuel r buf mn n err = Some (buf', n', err', r') \<Longrightarrow> mn \<le> n' \<or> err' \<noteq> None"
proof (induction fuel arbitrary: r buf n err)
  case 0
  then show ?case by (auto split: if_splits)
next
  case (Suc fuel)
  show ?case
  proof (cases "n < mn \<and> err = None")
    case True
    obtain bs e1 r1 where rd: "Read r (length buf - n) = (bs, e1, r1)"
      by (cases "Read r (length buf - n)") auto
    with True Suc.prems
    have "ReadAtLeast_loop fuel r1 (write_at buf n bs (Read_scratch r (length buf - n))) mn (n + length bs) e1 = Some (buf', n', err', r')"
      by simp
    from Suc.IH [OF this] show ?thesis .
  next
    case False
    with Suc.prems show ?thesis by auto
  qed
qed

lemma ReadAtLeast_loop_fields:
  "ReadAtLeast_loop fuel r buf mn n err = Some (buf', n', err', r') \<Longrightarrow>
     in_Read r' = in_Read r \<and> in_Scratch r' = in_Scratch r \<and> bo r' = bo r \<and> limit r' = limit r
     \<and> limitStack r' = limitStack r \<and> length buf' = length buf
     \<and> n' = n + length (ReadAtLeast_pulled fuel r (length buf) mn n err)
     \<and> bytesRead r' = bytesRead r
          + word_of_int (int (length (ReadAtLeast_pulled fuel r (length buf) mn n err)))"
proof (induction fuel arbitrary: r buf n err)
  case 0
  then show ?case by (auto split: if_splits)
next
  case (Suc fuel)
  show ?case
  proof (cases "n < mn \<and> err = None")
    case True
    obtain bs e1 r1 where rd: "Read r (length buf - n) = (bs, e1, r1)"
      by (cases "Read r (length buf - n)") auto
    with True Suc.prems
    have "ReadAtLeast_loop fuel r1 (write_at buf n bs (Read_scratch r (length buf - n))) mn (n + length bs) e1 = Some (buf', n', err', r')"
      by simp
    from Suc.IH [OF this] Read_fields [OF rd] True rd show ?thesis
      by (simp add: length_write_at)
  next
    case False
    with Suc.prems show ?thesis by auto
  qed
qed

lemma ReadAtLeast_loop_buf:
  assumes "io_Reader_contract (in_Read r)"
  shows "n \<le> length buf \<Longrightarrow>
     ReadAtLeast_loop fuel r buf mn n err = Some (buf', n', err', r') \<Longrightarrow>
     n' \<le> length buf
     \<and> take n' buf' = take n buf @ ReadAtLeast_pulled fuel r (length buf) mn n err"
  using assms
proof (induction fuel arbitrary: r buf n err)
  case 0
  then show ?case by (auto split: if_splits)
next
  case (Suc fuel)
  show ?case
  proof (cases "n < mn \<and> err = None")
    case True
    obtain bs e1 r1 where rd: "Read r (length buf - n) = (bs, e1, r1)"
      by (cases "Read r (length buf - n)") auto
    from Read_length [OF Suc.prems(3) rd] Suc.prems(1)
    have fit: "n + length bs \<le> length buf" by linarith
    let ?buf1 = "write_at buf n bs (Read_scratch r (length buf - n))"
    from True Suc.prems(2) rd
    have rec: "ReadAtLeast_loop fuel r1 ?buf1 mn (n + length bs) e1 = Some (buf', n', err', r')"
      by simp
    from fit have "n + length bs \<le> length ?buf1" by (simp add: length_write_at)
    from Suc.IH [OF this rec] Read_fields [OF rd] Suc.prems(3)
    have ih: "n' \<le> length buf"
      "take n' buf' = take (n + length bs) ?buf1
               @ ReadAtLeast_pulled fuel r1 (length buf) mn (n + length bs) e1"
      by (simp_all add: length_write_at)
    from ih write_at_prefix [OF fit] True rd show ?thesis by simp
  next
    case False
    with Suc.prems show ?thesis by auto
  qed
qed

text \<open>Over a source that writes only the bytes it reports, the rest of the buffer stays.\<close>

lemma ReadAtLeast_loop_rest:
  assumes "io_Reader_contract (in_Read r)" "in_Scratch r = no_scratch"
  shows "n \<le> length buf \<Longrightarrow>
     ReadAtLeast_loop fuel r buf mn n err = Some (buf', n', err', r') \<Longrightarrow>
     drop n' buf' = drop n' buf"
  using assms
proof (induction fuel arbitrary: r buf n err)
  case 0
  then show ?case by (auto split: if_splits)
next
  case (Suc fuel)
  show ?case
  proof (cases "n < mn \<and> err = None")
    case True
    obtain bs e1 r1 where rd: "Read r (length buf - n) = (bs, e1, r1)"
      by (cases "Read r (length buf - n)") auto
    from Read_length [OF Suc.prems(3) rd] Suc.prems(1)
    have fit: "n + length bs \<le> length buf" by linarith
    let ?buf1 = "write_at buf n bs (Read_scratch r (length buf - n))"
    from Read_scratch_none [OF Suc.prems(4)] fit
    have w: "?buf1 = take n buf @ bs @ drop (n + length bs) buf"
      by (simp add: write_at_no_scratch)
    from True Suc.prems(2) rd
    have rec: "ReadAtLeast_loop fuel r1 ?buf1 mn (n + length bs) e1 = Some (buf', n', err', r')"
      by simp
    from fit have "n + length bs \<le> length ?buf1" by (simp add: length_write_at)
    from Suc.IH [OF this rec] Read_fields [OF rd] Suc.prems(3,4)
    have ih: "drop n' buf' = drop n' ?buf1" by simp
    from ReadAtLeast_loop_fields [OF rec] have ge: "n + length bs \<le> n'" by simp
    from fit Suc.prems(1) ge have "drop n' ?buf1 = drop n' buf"
      unfolding w by (simp add: min_absorb2)
    with ih show ?thesis by simp
  next
    case False
    with Suc.prems show ?thesis by auto
  qed
qed

lemma ReadAtLeast_loop_None:
  "ReadAtLeast_loop fuel r buf mn n err = None \<Longrightarrow>
     n + length (ReadAtLeast_pulled fuel r (length buf) mn n err) < mn"
proof (induction fuel arbitrary: r buf n err)
  case 0
  then show ?case by (auto split: if_splits)
next
  case (Suc fuel)
  show ?case
  proof (cases "n < mn \<and> err = None")
    case True
    obtain bs e1 r1 where rd: "Read r (length buf - n) = (bs, e1, r1)"
      by (cases "Read r (length buf - n)") auto
    with True Suc.prems
    have "ReadAtLeast_loop fuel r1 (write_at buf n bs (Read_scratch r (length buf - n))) mn (n + length bs) e1 = None"
      by simp
    from Suc.IH [OF this] True rd show ?thesis by (simp add: length_write_at)
  next
    case False
    with Suc.prems show ?thesis by auto
  qed
qed

lemma ReadAtLeast_loop_terminates:
  assumes "never_stalls (in_Read r)"
  shows "mn \<le> length buf \<Longrightarrow> err \<noteq> None \<or> mn - n \<le> fuel \<Longrightarrow>
     ReadAtLeast_loop fuel r buf mn n err \<noteq> None"
  using assms
proof (induction fuel arbitrary: r buf n err)
  case 0
  then show ?case by auto
next
  case (Suc fuel)
  show ?case
  proof (cases "n < mn \<and> err = None")
    case True
    obtain bs e1 r1 where rd: "Read r (length buf - n) = (bs, e1, r1)"
      by (cases "Read r (length buf - n)") auto
    from True Suc.prems(1) have "0 < length buf - n" by simp
    from Read_stalls [OF Suc.prems(3) rd this] have "bs \<noteq> [] \<or> e1 \<noteq> None" .
    define l where "l = length bs"
    from \<open>bs \<noteq> [] \<or> e1 \<noteq> None\<close> have "e1 \<noteq> None \<or> 1 \<le> l"
      unfolding l_def by (cases bs) auto
    moreover from True Suc.prems(2) have "mn - n \<le> Suc fuel" by simp
    ultimately have "e1 \<noteq> None \<or> mn - (n + l) \<le> fuel" by linarith
    then have "e1 \<noteq> None \<or> mn - (n + length bs) \<le> fuel" by (simp only: l_def)
    from Suc.IH [OF _ this, of "write_at buf n bs (Read_scratch r (length buf - n))" r1] Suc.prems(1,3) Read_fields [OF rd] True rd
    show ?thesis by (simp add: length_write_at)
  next
    case False
    then show ?thesis by auto
  qed
qed

text \<open>Over a source that supplies the bytes, the loop fills the buffer.\<close>

lemma ReadAtLeast_loop_supplied:
  "supplies (in_Read r) (in_state r) m \<Longrightarrow> n \<le> length buf \<Longrightarrow> length buf - n \<le> m \<Longrightarrow>
     int (length buf - n) \<le> sint (BytesLeftUntilLimit r) \<Longrightarrow> length buf - n \<le> fuel \<Longrightarrow>
     \<exists>buf' r'. ReadAtLeast_loop fuel r buf (length buf) n None = Some (buf', length buf, None, r')"
proof (induction fuel arbitrary: r buf n m)
  case 0
  then show ?case by simp
next
  case (Suc fuel)
  show ?case
  proof (cases "n < length buf")
    case False
    with Suc.prems(2) show ?thesis by simp
  next
    case True
    define k where "k = length buf - n"
    from True have k: "0 < k" by (simp add: k_def)
    from Suc.prems(1,3) True
    have "\<forall>k. 0 < k \<longrightarrow>
       (\<exists>bs s'. in_Read r (in_state r) k = (bs, None, s') \<and> bs \<noteq> [] \<and> length bs \<le> k
                \<and> supplies (in_Read r) s' (m - length bs))"
      by (cases rule: supplies.cases) auto
    with k obtain bs s' where src: "in_Read r (in_state r) k = (bs, None, s')"
      and bs: "bs \<noteq> []" "length bs \<le> k" and rest: "supplies (in_Read r) s' (m - length bs)"
      by blast
    define d where "d = int (length bs)"
    from bs have d: "1 \<le> d" "d \<le> int k" unfolding d_def by (cases bs; simp)+
    define r1 where "r1 = r\<lparr>in_state := s', bytesRead := bytesRead r + word_of_int d\<rparr>"
    from k Suc.prems(4) have ne: "\<not> BytesLeftUntilLimit r \<le>s 0"
      "\<not> sint (BytesLeftUntilLimit r) < int k"
      by (simp_all add: word_sle_eq k_def)
    with src have rd: "Read r k = (bs, None, r1)"
      by (simp add: Read_def Let_def r1_def d_def)
    note bb = sint64_bounds [of "BytesLeftUntilLimit r"]
    from d Suc.prems(4) bb have sd: "sint (word_of_int d :: int64) = d"
      unfolding k_def [symmetric] by (intro sint64_of_int) linarith+
    have "BytesLeftUntilLimit r1 = BytesLeftUntilLimit r - word_of_int d"
      by (simp add: BytesLeftUntilLimit_def r1_def)
    moreover from sd d Suc.prems(4) bb
    have "sint (BytesLeftUntilLimit r - word_of_int d) = sint (BytesLeftUntilLimit r) - d"
      unfolding k_def [symmetric] by (subst sint64_diff) linarith+
    ultimately have s2: "sint (BytesLeftUntilLimit r1) = sint (BytesLeftUntilLimit r) - d"
      by simp
    define buf1 where "buf1 = write_at buf n bs (Read_scratch r k)"
    have l1: "length buf1 = length buf" unfolding buf1_def by (rule length_write_at)
    have a1: "supplies (in_Read r1) (in_state r1) (m - length bs)"
      using rest by (simp add: r1_def)
    have a2: "n + length bs \<le> length buf1"
      using bs(2) True unfolding l1 k_def by linarith
    have a3: "length buf1 - (n + length bs) \<le> m - length bs"
      using Suc.prems(3) unfolding l1 by linarith
    have a4: "int (length buf1 - (n + length bs)) \<le> sint (BytesLeftUntilLimit r1)"
      using s2 Suc.prems(4) bs(2) True unfolding l1 d_def k_def by linarith
    have a5: "length buf1 - (n + length bs) \<le> fuel"
      using Suc.prems(5) d unfolding l1 d_def by linarith
    from Suc.IH [OF a1 a2 a3 a4 a5] obtain buf' r'
      where "ReadAtLeast_loop fuel r1 buf1 (length buf) (n + length bs) None
               = Some (buf', length buf, None, r')"
      unfolding l1 by blast
    with True rd show ?thesis
      by (simp add: buf1_def k_def)
  qed
qed

subsection \<open>Decoding by byte order\<close>

lemma byte_lt: "unat (b :: byte) < 256"
  using unsigned_less [of b, where 'a = nat] by simp

lemma unat_ucast_byte16: "unat (ucast (b :: byte) :: uint16) = unat b"
  using byte_lt [of b] by (simp add: unsigned_ucast_eq take_bit_nat_eq_self)

lemma unat_ucast_byte32: "unat (ucast (b :: byte) :: uint32) = unat b"
  using byte_lt [of b] by (simp add: unsigned_ucast_eq take_bit_nat_eq_self)

lemma shift16: "unat (push_bit 8 (ucast (b :: byte)) :: uint16) = 256 * unat b"
  using byte_lt [of b]
  by (simp add: push_bit_eq_mult unat_word_ariths unat_ucast_byte16)

lemma and16: "(ucast (a :: byte) :: uint16) AND push_bit 8 (ucast (b :: byte)) = 0"
  by (rule bit_eqI) (auto simp: bit_simps dest: bit_imp_le_length)

lemma Uint16_LE: "unat (Uint16 LittleEndian [b0, b1]) = unat b0 + 256 * unat b1"
proof -
  have "(ucast b0 :: uint16) OR push_bit 8 (ucast b1) = ucast b0 + push_bit 8 (ucast b1)"
    by (rule disjunctive_add_eq_or [symmetric]) (rule and16)
  then show ?thesis
    using byte_lt [of b0] byte_lt [of b1]
    by (simp add: unat_word_ariths shift16 unat_ucast_byte16)
qed


lemma Uint16_BE: "unat (Uint16 BigEndian [b0, b1]) = 256 * unat b0 + unat b1"
  using Uint16_LE [of b1 b0] by simp

lemma shift32:
  "unat (push_bit 8 (ucast (b :: byte)) :: uint32) = 256 * unat b"
  "unat (push_bit 16 (ucast (b :: byte)) :: uint32) = 65536 * unat b"
  "unat (push_bit 24 (ucast (b :: byte)) :: uint32) = 16777216 * unat b"
  using byte_lt [of b]
  by (simp_all add: push_bit_eq_mult unat_word_ariths unat_ucast_byte32)

lemma and32:
  "push_bit 16 (ucast (c :: byte)) AND (push_bit 24 (ucast (d :: byte)) :: uint32) = 0"
  "push_bit 8 (ucast (b :: byte))
     AND (push_bit 16 (ucast (c :: byte)) OR push_bit 24 (ucast (d :: byte)) :: uint32) = 0"
  "ucast (a :: byte) AND (push_bit 8 (ucast (b :: byte))
     OR push_bit 16 (ucast (c :: byte)) OR push_bit 24 (ucast (d :: byte)) :: uint32) = 0"
  by (rule bit_eqI, auto simp: bit_simps dest: bit_imp_le_length)+

lemma Uint32_LE:
  "unat (Uint32 LittleEndian [b0, b1, b2, b3])
     = unat b0 + 256 * unat b1 + 65536 * unat b2 + 16777216 * unat b3"
proof -
  have "(ucast b0 :: uint32) OR push_bit 8 (ucast b1) OR push_bit 16 (ucast b2)
          OR push_bit 24 (ucast b3)
        = ucast b0 + (push_bit 8 (ucast b1) + (push_bit 16 (ucast b2) + push_bit 24 (ucast b3)))"
    by (simp add: disjunctive_add_eq_or and32)
  then show ?thesis
    using byte_lt [of b0] byte_lt [of b1] byte_lt [of b2] byte_lt [of b3]
    by (simp add: unat_word_ariths shift32 unat_ucast_byte32)
qed

lemma Uint32_BE:
  "unat (Uint32 BigEndian [b0, b1, b2, b3])
     = 16777216 * unat b0 + 65536 * unat b1 + 256 * unat b2 + unat b3"
  using Uint32_LE [of b3 b2 b1 b0] by simp

subsection \<open>Typed reads and text\<close>

lemma ReadFull_summary:
  assumes "io_Reader_contract (in_Read r)" "ReadFull fuel r buf = Some (buf', n', e', r')"
  shows "n' = length (ReadFull_pulled fuel r (length buf))
     \<and> n' \<le> length buf
     \<and> length buf' = length buf
     \<and> take n' buf' = ReadFull_pulled fuel r (length buf)
     \<and> in_Read r' = in_Read r \<and> in_Scratch r' = in_Scratch r \<and> bo r' = bo r \<and> limit r' = limit r
     \<and> limitStack r' = limitStack r
     \<and> bytesRead r' = bytesRead r + word_of_int (int n')
     \<and> (e' = None \<longleftrightarrow> n' = length buf)"
proof -
  from assms(2) obtain e0 where
    lp: "ReadAtLeast_loop fuel r buf (length buf) 0 None = Some (buf', n', e0, r')"
    and e': "e' = (if length buf \<le> n' then None
                   else if 0 < n' \<and> e0 = Some EOF then Some ErrUnexpectedEOF else e0)"
    by (auto simp: ReadFull_def ReadAtLeast_def split: option.splits)
  from ReadAtLeast_loop_buf [OF assms(1) _ lp] have b: "n' \<le> length buf"
    "take n' buf' = ReadFull_pulled fuel r (length buf)"
    by (simp_all add: ReadFull_pulled_def)
  from ReadAtLeast_loop_exit [OF lp] have "length buf \<le> n' \<or> e0 \<noteq> None" .
  with e' b(1) have "e' = None \<longleftrightarrow> n' = length buf" by auto
  with ReadAtLeast_loop_fields [OF lp] b show ?thesis
    by (simp add: ReadFull_pulled_def)
qed

lemma ReadFull_rest:
  assumes "io_Reader_contract (in_Read r)" "in_Scratch r = no_scratch"
    "ReadFull fuel r buf = Some (buf', n', e', r')"
  shows "buf' = ReadFull_pulled fuel r (length buf) @ drop n' buf"
proof -
  from assms(3) obtain e0 where
    lp: "ReadAtLeast_loop fuel r buf (length buf) 0 None = Some (buf', n', e0, r')"
    by (auto simp: ReadFull_def ReadAtLeast_def split: option.splits)
  from ReadAtLeast_loop_rest [OF assms(1,2) _ lp] have "drop n' buf' = drop n' buf" by simp
  moreover from ReadFull_summary [OF assms(1,3)]
  have "take n' buf' = ReadFull_pulled fuel r (length buf)" by blast
  ultimately show ?thesis by (metis append_take_drop_id)
qed

lemma ReadFull_supplied:
  assumes "supplies (in_Read r) (in_state r) (length buf)"
    and "int (length buf) \<le> sint (BytesLeftUntilLimit r)" and "length buf \<le> fuel"
  shows "\<exists>buf' r'. ReadFull fuel r buf = Some (buf', length buf, None, r')"
  using ReadAtLeast_loop_supplied [of r "length buf" 0 buf fuel] assms
  by (auto simp: ReadFull_def ReadAtLeast_def)

lemma ReadFull_None:
  "ReadFull fuel r buf = None \<Longrightarrow> length (ReadFull_pulled fuel r (length buf)) < length buf"
  using ReadAtLeast_loop_None [of fuel r buf "length buf" 0 None]
  by (auto simp: ReadFull_def ReadAtLeast_def ReadFull_pulled_def split: option.splits)

lemma ReadFull_terminates:
  "never_stalls (in_Read r) \<Longrightarrow> length buf \<le> fuel \<Longrightarrow> ReadFull fuel r buf \<noteq> None"
  using ReadAtLeast_loop_terminates [of r "length buf" buf None 0 fuel]
  by (auto simp: ReadFull_def ReadAtLeast_def split: option.splits)

text \<open>When all the bytes arrive, the read succeeds with exactly these bytes.\<close>

lemma ReadFull_complete:
  assumes "io_Reader_contract (in_Read r)" "length (ReadFull_pulled fuel r (length buf)) = length buf"
  shows "\<exists>r'. ReadFull fuel r buf = Some (ReadFull_pulled fuel r (length buf), length buf, None, r')
           \<and> bytesRead r' = bytesRead r + word_of_int (int (length buf))"
proof (cases "ReadFull fuel r buf")
  case None
  from ReadFull_None [OF this] assms(2) show ?thesis by simp
next
  case (Some res)
  obtain buf' n' e' r' where res: "res = (buf', n', e', r')" by (cases res) auto
  note sm = ReadFull_summary [OF assms(1) Some [unfolded res]]
  from sm assms(2) have n: "n' = length buf" by metis
  from sm n have e: "e' = None" and l: "length buf' = length buf"
    and t: "take n' buf' = ReadFull_pulled fuel r (length buf)"
    and b: "bytesRead r' = bytesRead r + word_of_int (int n')"
    by blast+
  from t n l have "buf' = ReadFull_pulled fuel r (length buf)" by simp
  with Some res n e b show ?thesis by simp
qed

text \<open>
  C8. For a byte source within the \<open>io.Reader\<close> contract, \<open>ReadString r n\<close> returns
  \<open>n\<close> bytes that begin with the bytes the source handed over, in order and unchanged,
  and \<open>bytesRead\<close> grows by the number of bytes handed over. Without an error these
  are exactly \<open>n\<close> bytes: the string is exactly them and \<open>bytesRead\<close> has grown by
  \<open>n\<close>. With an error fewer than \<open>n\<close> bytes arrived; behind them the string holds
  what the buffer holds, which is zero bytes over a source that writes only the bytes it
  reports. The read succeeds over a source that supplies \<open>n\<close> more bytes when they fit
  before the limit, and it returns over every source that never stalls (given fuel
  for \<open>n\<close> reads).
\<close>

theorem ReadString_bytes:
  assumes "io_Reader_contract (in_Read r)"
  shows "(\<forall>s err r'. ReadString fuel r n = Some (s, err, r') \<longrightarrow>
            (let got = ReadFull_pulled fuel r (unat n) in
               length s = unat n \<and> take (length got) s = got
               \<and> bytesRead r' = bytesRead r + word_of_nat (length got)
               \<and> (err = None \<longrightarrow> s = got \<and> length got = unat n
                     \<and> bytesRead r' = bytesRead r + word_of_nat (unat n))
               \<and> (err \<noteq> None \<longrightarrow> length got < unat n)
               \<and> (in_Scratch r = no_scratch \<longrightarrow>
                     s = got @ replicate (unat n - length got) 0)))
       \<and> (supplies (in_Read r) (in_state r) (unat n)
            \<and> int (unat n) \<le> sint (BytesLeftUntilLimit r) \<and> unat n \<le> fuel \<longrightarrow>
            (\<exists>s r'. ReadString fuel r n = Some (s, None, r')))
       \<and> (never_stalls (in_Read r) \<and> unat n \<le> fuel \<longrightarrow> ReadString fuel r n \<noteq> None)"
proof (intro conjI allI impI)
  fix s err r'
  assume "ReadString fuel r n = Some (s, err, r')"
  then obtain m where rf: "ReadFull fuel r (replicate (unat n) 0) = Some (s, m, err, r')"
    by (auto simp: ReadString_def split: option.splits)
  note sm = ReadFull_summary [OF assms rf]
  have rest: "s = ReadFull_pulled fuel r (unat n)
                    @ replicate (unat n - length (ReadFull_pulled fuel r (unat n))) 0"
    if "in_Scratch r = no_scratch"
    using ReadFull_rest [OF assms that rf] sm by simp
  from sm have "err = None \<longrightarrow> take (length s) s = ReadFull_pulled fuel r (unat n)"
    by auto
  with sm rest
  show "let got = ReadFull_pulled fuel r (unat n) in
               length s = unat n \<and> take (length got) s = got
               \<and> bytesRead r' = bytesRead r + word_of_nat (length got)
               \<and> (err = None \<longrightarrow> s = got \<and> length got = unat n
                     \<and> bytesRead r' = bytesRead r + word_of_nat (unat n))
               \<and> (err \<noteq> None \<longrightarrow> length got < unat n)
               \<and> (in_Scratch r = no_scratch \<longrightarrow>
                     s = got @ replicate (unat n - length got) 0)"
    by (auto simp: Let_def)
next
  assume "supplies (in_Read r) (in_state r) (unat n)
            \<and> int (unat n) \<le> sint (BytesLeftUntilLimit r) \<and> unat n \<le> fuel"
  with ReadFull_supplied [of r "replicate (unat n) 0" fuel]
  show "\<exists>s r'. ReadString fuel r n = Some (s, None, r')"
    by (auto simp: ReadString_def)
next
  assume "never_stalls (in_Read r) \<and> unat n \<le> fuel"
  with ReadFull_terminates [of r "replicate (unat n) 0" fuel]
  show "ReadString fuel r n \<noteq> None"
    by (auto simp: ReadString_def split: option.splits)
qed

lemma ReadAtLeast_loop_numeral:
  "ReadAtLeast_loop (numeral k) r buf mn n err =
     (if n < mn \<and> err = None then
        (case Read r (length buf - n) of (bs, err', r') \<Rightarrow>
           ReadAtLeast_loop (pred_numeral k) r'
             (write_at buf n bs (Read_scratch r (length buf - n))) mn (n + length bs) err')
      else Some (buf, n, err, r))"
  using ReadAtLeast_loop.simps(2) [of "pred_numeral k" r buf mn n err]
  by (simp only: numeral_eq_Suc [of k, symmetric])

lemma ReadAtLeast_pulled_numeral:
  "ReadAtLeast_pulled (numeral k) r lenbuf mn n err =
     (if n < mn \<and> err = None then
        (case Read r (lenbuf - n) of (bs, err', r') \<Rightarrow>
           bs @ ReadAtLeast_pulled (pred_numeral k) r' lenbuf mn (n + length bs) err')
      else [])"
  using ReadAtLeast_pulled.simps(2) [of "pred_numeral k" r lenbuf mn n err]
  by (simp only: numeral_eq_Suc [of k, symmetric])

lemmas read_eval_simps = ReadAtLeast_loop_numeral ReadAtLeast_pulled_numeral
  ReadString_def ReadUInt16_def ReadUInt32_def ReadInt16_def ReadInt32_def binary_Read_def
  ReadFull_def ReadAtLeast_def ReadFull_pulled_def write_at_def one_byte_Reader_def
  fill_scratch_def

lemma binary_Read_complete:
  assumes "io_Reader_contract (in_Read r)" "ReadFull_pulled fuel r sz = bs" "length bs = sz"
  shows "\<exists>r'. binary_Read fuel r sz = Some (Some bs, None, r')
           \<and> bytesRead r' = bytesRead r + word_of_int (int sz)"
  using ReadFull_complete [OF assms(1), of fuel "replicate sz 0"] assms(2,3)
  by (auto simp: binary_Read_def)

lemma ReadFull_pulled_one_pull:
  assumes "int sz \<le> sint (BytesLeftUntilLimit r)" "0 < sz"
    and "length (fst (in_Read r (in_state r) sz)) = sz"
  shows "ReadFull_pulled (Suc fuel) r sz = fst (in_Read r (in_state r) sz)"
proof -
  from assms(1,2) have "\<not> BytesLeftUntilLimit r \<le>s 0" "\<not> sint (BytesLeftUntilLimit r) < int sz"
    by (simp_all add: word_sle_eq)
  then obtain e r1 where "Read r sz = (fst (in_Read r (in_state r) sz), e, r1)"
    by (cases "in_Read r (in_state r) sz") (auto simp: Read_def Let_def)
  with assms(2,3) show ?thesis
    by (simp add: ReadFull_pulled_def ReadAtLeast_pulled_done)
qed

text \<open>
  C7. With at least 2 bytes left before the limit and a source that answers the
  two-byte request with \<open>[0x01, 0x00]\<close>, \<open>ReadUInt16\<close> yields 1 for a little-endian
  reader and 256 for a big-endian one. In general, whenever the source hands over the 2
  (or 4) bytes in whatever portions, each typed read returns them decoded by the
  reader's byte order: little-endian takes the first byte as the lowest, big-endian as
  the highest.
\<close>

theorem typed_reads_byte_order:
  assumes "io_Reader_contract (in_Read r)"
  shows "(2 \<le> sint (BytesLeftUntilLimit r) \<and> fst (in_Read r (in_state r) 2) = [1, 0] \<longrightarrow>
           (\<exists>r'. ReadUInt16 (Suc fuel) r
                    = Some (case bo r of LittleEndian \<Rightarrow> 1 | BigEndian \<Rightarrow> 256, None, r')))
       \<and> (\<forall>b0 b1. ReadFull_pulled fuel r 2 = [b0, b1] \<longrightarrow>
           (\<exists>r'. ReadUInt16 fuel r = Some (Uint16 (bo r) [b0, b1], None, r')
               \<and> ReadInt16 fuel r = Some (sint (Uint16 (bo r) [b0, b1]), None, r')))
       \<and> (\<forall>b0 b1 b2 b3. ReadFull_pulled fuel r 4 = [b0, b1, b2, b3] \<longrightarrow>
           (\<exists>r'. ReadUInt32 fuel r = Some (Uint32 (bo r) [b0, b1, b2, b3], None, r')
               \<and> ReadInt32 fuel r = Some (sint (Uint32 (bo r) [b0, b1, b2, b3]), None, r')))
       \<and> (\<forall>b0 b1. unat (Uint16 LittleEndian [b0, b1]) = unat b0 + 256 * unat b1
               \<and> unat (Uint16 BigEndian [b0, b1]) = 256 * unat b0 + unat b1)
       \<and> (\<forall>b0 b1 b2 b3.
             unat (Uint32 LittleEndian [b0, b1, b2, b3])
               = unat b0 + 256 * unat b1 + 65536 * unat b2 + 16777216 * unat b3
             \<and> unat (Uint32 BigEndian [b0, b1, b2, b3])
               = 16777216 * unat b0 + 65536 * unat b1 + 256 * unat b2 + unat b3)"
proof (intro conjI allI impI)
  assume h: "2 \<le> sint (BytesLeftUntilLimit r) \<and> fst (in_Read r (in_state r) 2) = [1, 0]"
  then have "ReadFull_pulled (Suc fuel) r 2 = [1, 0]"
    using ReadFull_pulled_one_pull [of 2 r fuel] by simp
  from binary_Read_complete [OF assms this]
  show "\<exists>r'. ReadUInt16 (Suc fuel) r
                = Some (case bo r of LittleEndian \<Rightarrow> 1 | BigEndian \<Rightarrow> 256, None, r')"
    by (cases "bo r") (auto simp: ReadUInt16_def)
next
  fix b0 b1
  assume "ReadFull_pulled fuel r 2 = [b0, b1]"
  from binary_Read_complete [OF assms this]
  show "\<exists>r'. ReadUInt16 fuel r = Some (Uint16 (bo r) [b0, b1], None, r')
               \<and> ReadInt16 fuel r = Some (sint (Uint16 (bo r) [b0, b1]), None, r')"
    by (auto simp: ReadUInt16_def ReadInt16_def)
next
  fix b0 b1 b2 b3
  assume "ReadFull_pulled fuel r 4 = [b0, b1, b2, b3]"
  from binary_Read_complete [OF assms this]
  show "\<exists>r'. ReadUInt32 fuel r = Some (Uint32 (bo r) [b0, b1, b2, b3], None, r')
               \<and> ReadInt32 fuel r = Some (sint (Uint32 (bo r) [b0, b1, b2, b3]), None, r')"
    by (auto simp: ReadUInt32_def ReadInt32_def)
qed (rule Uint16_LE Uint16_BE Uint32_LE Uint32_BE)+

lemma one_byte_Reader_contract: "io_Reader_contract one_byte_Reader"
  by (auto simp: io_Reader_contract_def one_byte_Reader_def)

theorem typed_reads_byte_order_witness:
  "io_Reader_contract (in_Read (mem_reader [1, 0] BigEndian 10))
   \<and> 2 \<le> sint (BytesLeftUntilLimit (mem_reader [1, 0] BigEndian 10))
   \<and> fst (in_Read (mem_reader [1, 0] BigEndian 10) (in_state (mem_reader [1, 0] BigEndian 10)) 2) = [1, 0]
   \<and> ReadUInt16 3 (mem_reader [1, 0] BigEndian 10)
        = Some (256, None, (mem_reader [1, 0] BigEndian 10)\<lparr>in_state := [], bytesRead := 2\<rparr>)
   \<and> ReadUInt16 3 (mem_reader [1, 0] LittleEndian 10)
        = Some (1, None, (mem_reader [1, 0] LittleEndian 10)\<lparr>in_state := [], bytesRead := 2\<rparr>)
   \<and> io_Reader_contract (in_Read (chunked_reader [1, 2, 3, 4] LittleEndian 10))
   \<and> ReadFull_pulled 5 (chunked_reader [1, 2, 3, 4] LittleEndian 10) 4 = [1, 2, 3, 4]
   \<and> ReadUInt32 5 (chunked_reader [1, 2, 3, 4] LittleEndian 10)
        = Some (67305985, None,
                (chunked_reader [1, 2, 3, 4] LittleEndian 10)\<lparr>in_state := [], bytesRead := 4\<rparr>)
   \<and> ReadFull_pulled 5 (chunked_reader [255, 254] BigEndian 10) 2 = [255, 254]
   \<and> ReadInt16 5 (chunked_reader [255, 254] BigEndian 10)
        = Some (- 2, None, (chunked_reader [255, 254] BigEndian 10)\<lparr>in_state := [], bytesRead := 2\<rparr>)"
proof -
  let ?r = "mem_reader [1, 0] BigEndian 10"
  let ?c = "chunked_reader [1, 2, 3, 4] LittleEndian 10"
  have c: "io_Reader_contract (in_Read ?r)" "io_Reader_contract (in_Read ?c)"
    by (simp_all add: mem_reader_simps bytes_Reader_contract chunked_reader_def NewReader_def
          one_byte_Reader_contract)
  have a: "2 \<le> sint (BytesLeftUntilLimit ?r)"
      "fst (in_Read ?r (in_state ?r) 2) = [1, 0]"
    by (simp_all add: BytesLeftUntilLimit_def mem_reader_simps bytes_Reader_def)
  have e: "ReadUInt16 3 ?r = Some (256, None, ?r\<lparr>in_state := [], bytesRead := 2\<rparr>)"
     "ReadUInt16 3 (mem_reader [1, 0] LittleEndian 10)
        = Some (1, None, (mem_reader [1, 0] LittleEndian 10)\<lparr>in_state := [], bytesRead := 2\<rparr>)"
     "ReadFull_pulled 5 ?c 4 = [1, 2, 3, 4]"
     "ReadUInt32 5 ?c = Some (67305985, None, ?c\<lparr>in_state := [], bytesRead := 4\<rparr>)"
     "ReadFull_pulled 5 (chunked_reader [255, 254] BigEndian 10) 2 = [255, 254]"
     "ReadInt16 5 (chunked_reader [255, 254] BigEndian 10)
        = Some (- 2, None, (chunked_reader [255, 254] BigEndian 10)\<lparr>in_state := [], bytesRead := 2\<rparr>)"
    by (simp_all add: eval_simps read_eval_simps chunked_reader_def)
  from typed_reads_byte_order [OF c(1), of 2] typed_reads_byte_order [OF c(2), of 5] c a e
  show ?thesis by simp
qed

lemma replicate_numeral': "replicate (numeral k) x = x # replicate (pred_numeral k) x"
  by (simp add: numeral_eq_Suc)

theorem ReadString_bytes_witness:
  "io_Reader_contract (in_Read (mem_reader [65, 66, 67, 68] LittleEndian 10))
   \<and> never_stalls (in_Read (mem_reader [65, 66, 67, 68] LittleEndian 10))
   \<and> supplies (in_Read (mem_reader [65, 66, 67, 68] LittleEndian 10))
        (in_state (mem_reader [65, 66, 67, 68] LittleEndian 10)) (unat (3 :: uint32))
   \<and> int (unat (3 :: uint32)) \<le> sint (BytesLeftUntilLimit (mem_reader [65, 66, 67, 68] LittleEndian 10))
   \<and> unat (3 :: uint32) \<le> 4
   \<and> ReadFull_pulled 4 (mem_reader [65, 66, 67, 68] LittleEndian 10) 3 = [65, 66, 67]
   \<and> ReadString 4 (mem_reader [65, 66, 67, 68] LittleEndian 10) 3
        = Some ([65, 66, 67], None,
                (mem_reader [65, 66, 67, 68] LittleEndian 10)\<lparr>in_state := [68], bytesRead := 3\<rparr>)
   \<and> bytesRead ((mem_reader [65, 66, 67, 68] LittleEndian 10)\<lparr>in_state := [68], bytesRead := 3\<rparr>)
        = bytesRead (mem_reader [65, 66, 67, 68] LittleEndian 10) + 3
   \<and> io_Reader_contract (in_Read (scribbling_reader [65] LittleEndian 10))
   \<and> ReadFull_pulled 4 (scribbling_reader [65] LittleEndian 10) 3 = [65]
   \<and> ReadString 4 (scribbling_reader [65] LittleEndian 10) 3
        = Some ([65, 255, 255], Some ErrUnexpectedEOF,
                (scribbling_reader [65] LittleEndian 10)\<lparr>in_state := [], bytesRead := 1\<rparr>)"
proof -
  let ?c = "mem_reader [65, 66, 67, 68] LittleEndian 10"
  let ?d = "scribbling_reader [65] LittleEndian 10"
  have c: "io_Reader_contract (in_Read ?c)" "never_stalls (in_Read ?c)"
    "supplies (in_Read ?c) (in_state ?c) (unat (3 :: uint32))"
    "io_Reader_contract (in_Read ?d)"
    by (simp_all add: mem_reader_simps bytes_Reader_contract bytes_Reader_never_stalls
          bytes_Reader_supplies scribbling_reader_def NewReader_def)
  have a: "int (unat (3 :: uint32)) \<le> sint (BytesLeftUntilLimit ?c)" "unat (3 :: uint32) \<le> 4"
    by (simp_all add: BytesLeftUntilLimit_def mem_reader_simps)
  have e: "ReadFull_pulled 4 ?c 3 = [65, 66, 67]"
    "ReadString 4 ?c 3 = Some ([65, 66, 67], None, ?c\<lparr>in_state := [68], bytesRead := 3\<rparr>)"
    "ReadFull_pulled 4 ?d 3 = [65]"
    "ReadString 4 ?d 3 = Some ([65, 255, 255], Some ErrUnexpectedEOF,
                ?d\<lparr>in_state := [], bytesRead := 1\<rparr>)"
    by (simp_all add: eval_simps read_eval_simps scribbling_reader_def replicate_numeral')
  from ReadString_bytes [OF c(1), of 4 3] ReadString_bytes [OF c(4), of 4 3] c a e show ?thesis
    by (simp add: mem_reader_simps)
qed

text \<open>
  The claim as stated fails on a partial read: asked for 3 bytes over a source holding
  one byte \<open>0x41\<close>, the bytes read are \<open>[0x41]\<close> but the string returned with
  \<open>io.ErrUnexpectedEOF\<close> is \<open>[0x41, 0, 0]\<close>.
\<close>

theorem ReadString_claim_counterexample:
  "ReadFull_pulled 4 (mem_reader [65] LittleEndian 10) 3 = [65]
   \<and> ReadString 4 (mem_reader [65] LittleEndian 10) 3
        = Some ([65, 0, 0], Some ErrUnexpectedEOF,
                (mem_reader [65] LittleEndian 10)\<lparr>in_state := [], bytesRead := 1\<rparr>)"
  by (simp add: eval_simps read_eval_simps replicate_numeral')

subsection \<open>The byte counter\<close>

lemma ReadFull_counts:
  assumes "ReadFull fuel r buf = Some (buf', n', e', r')"
  shows "bytesRead r' = bytesRead r + word_of_nat (length (ReadFull_pulled fuel r (length buf)))"
proof -
  from assms obtain e0 where
    "ReadAtLeast_loop fuel r buf (length buf) 0 None = Some (buf', n', e0, r')"
    by (auto simp: ReadFull_def ReadAtLeast_def split: option.splits)
  from ReadAtLeast_loop_fields [OF this] show ?thesis
    by (simp add: ReadFull_pulled_def)
qed

lemma binary_Read_counts:
  assumes "binary_Read fuel r sz = Some (v, e, r')"
  shows "bytesRead r' = bytesRead r + word_of_nat (length (ReadFull_pulled fuel r sz))"
proof -
  from assms obtain buf' n' e' where "ReadFull fuel r (replicate sz 0) = Some (buf', n', e', r')"
    by (auto simp: binary_Read_def split: option.splits)
  from ReadFull_counts [OF this] show ?thesis by simp
qed

lemma PopLimit_counts:
  assumes "PopLimit fuel r = Some res"
  shows "bytesRead (case res of Inl (pnc, r') \<Rightarrow> r' | Inr r' \<Rightarrow> r')
           = bytesRead r + word_of_nat (PopLimit_pulled fuel r)"
proof (cases "bytesRead r <s limit r")
  case True
  with assms obtain e r1 where sk: "Skip fuel r (limit r - bytesRead r) = Some (e, r1)"
    by (auto simp: PopLimit_def split: option.splits)
  with assms True have "bytesRead (case res of Inl (pnc, r') \<Rightarrow> r' | Inr r' \<Rightarrow> r') = bytesRead r1"
    by (auto simp: PopLimit_def Let_def split: if_splits)
  with Skip_pulled_eq [OF sk] True show ?thesis by (simp add: PopLimit_pulled_def)
next
  case False
  with assms show ?thesis
    by (auto simp: PopLimit_def PopLimit_pulled_def Let_def split: if_splits)
qed

text \<open>Every step adds to \<open>bytesRead\<close> the number of bytes it pulled, in \<open>int64\<close>.\<close>

lemma lifetime_step_counts:
  assumes "lifetime_step (r, t) (r', t')" and "bytesRead r = word_of_nat t"
  shows "bytesRead r' = word_of_nat t' \<and> t \<le> t'"
  using assms
proof (cases rule: lifetime_step.cases)
  case (step_Read lenp bs e)
  from Read_fields [OF step_Read(2)] step_Read(1) assms(2) show ?thesis by simp
next
  case (step_ReadUInt16 fuel u16 e)
  then obtain v where "binary_Read fuel r 2 = Some (v, e, r')"
    by (auto simp: ReadUInt16_def split: option.splits)
  from binary_Read_counts [OF this] step_ReadUInt16(1) assms(2) show ?thesis by simp
next
  case (step_ReadUInt32 fuel u32 e)
  then obtain v where "binary_Read fuel r 4 = Some (v, e, r')"
    by (auto simp: ReadUInt32_def split: option.splits)
  from binary_Read_counts [OF this] step_ReadUInt32(1) assms(2) show ?thesis by simp
next
  case (step_ReadInt16 fuel i16 e)
  then obtain v where "binary_Read fuel r 2 = Some (v, e, r')"
    by (auto simp: ReadInt16_def split: option.splits)
  from binary_Read_counts [OF this] step_ReadInt16(1) assms(2) show ?thesis by simp
next
  case (step_ReadInt32 fuel i32 e)
  then obtain v where "binary_Read fuel r 4 = Some (v, e, r')"
    by (auto simp: ReadInt32_def split: option.splits)
  from binary_Read_counts [OF this] step_ReadInt32(1) assms(2) show ?thesis by simp
next
  case (step_ReadString fuel n str e)
  then obtain k where "ReadFull fuel r (replicate (unat n) 0) = Some (str, k, e, r')"
    by (auto simp: ReadString_def split: option.splits)
  from ReadFull_counts [OF this] step_ReadString(1) assms(2) show ?thesis by simp
next
  case (step_Skip fuel m e)
  from Skip_pulled_eq [OF step_Skip(2)] step_Skip(1) assms(2) show ?thesis by simp
next
  case (step_PushLimit m e)
  with assms(2) show ?thesis by (auto simp: PushLimit_def Let_def split: if_splits)
next
  case (step_PopLimit fuel)
  from PopLimit_counts [OF step_PopLimit(2)] step_PopLimit(1) assms(2) show ?thesis by simp
next
  case (step_PopLimit_panic fuel pnc)
  from PopLimit_counts [OF step_PopLimit_panic(2)] step_PopLimit_panic(1) assms(2)
  show ?thesis by simp
next
  case (step_IsLimitExhausted x)
  with assms(2) show ?thesis by simp
next
  case (step_BytesLeftUntilLimit left)
  with assms(2) show ?thesis by simp
qed

lemma lifetime_counts:
  assumes "lifetime_step\<^sup>*\<^sup>* (r, t) (r', t')" and "bytesRead r = word_of_nat t"
  shows "bytesRead r' = word_of_nat t' \<and> t \<le> t'"
  using assms
proof (induction rule: rtranclp_induct2)
  case refl
  then show ?case by simp
next
  case (step ra ta rb tb)
  from step.IH [OF step.prems] have "bytesRead ra = word_of_nat ta" "t \<le> ta" by simp_all
  with lifetime_step_counts [OF step.hyps(2)] show ?case by auto
qed

lemma sint64_of_nat:
  "t < 9223372036854775808 \<Longrightarrow> sint (word_of_nat t :: int64) = int t"
  using sint64_of_int [of "int t"] by simp

text \<open>
  C9. Over the lifetime of a decoder, from \<open>NewReader\<close> on through any operations of
  the interface (the raw read, the four typed reads, the text read, \<open>Skip\<close>,
  \<open>PushLimit\<close>, \<open>PopLimit\<close> and the two queries), \<open>bytesRead\<close> after any operation is
  greater than or equal to \<open>bytesRead\<close> at any earlier point, and it is the number of
  bytes pulled from the byte source so far, as long as that number stays below
  \<open>2^63\<close>, where the \<open>int64\<close> counter would overflow.
\<close>

theorem bytesRead_never_decreases:
  assumes "lifetime_step\<^sup>*\<^sup>* (fst (NewReader rd scr s b lim), 0) (r1, t1)"
    and "lifetime_step\<^sup>*\<^sup>* (r1, t1) (r2, t2)"
    and "t2 < 9223372036854775808"
  shows "bytesRead r1 \<le>s bytesRead r2 \<and> sint (bytesRead r2) = int t2"
proof -
  have "bytesRead (fst (NewReader rd scr s b lim)) = word_of_nat 0"
    by (simp add: NewReader_def)
  from lifetime_counts [OF assms(1) this] have b1: "bytesRead r1 = word_of_nat t1" by simp
  from lifetime_counts [OF assms(2) b1] have b2: "bytesRead r2 = word_of_nat t2" "t1 \<le> t2"
    by simp_all
  from b2(2) assms(3) have "t1 < 9223372036854775808" by simp
  with b1 b2 assms(3) show ?thesis
    by (simp add: word_sle_eq sint64_of_nat)
qed

lemma discard_ReadFrom_pulled_numeral:
  "discard_ReadFrom_pulled (numeral k) r lN =
     (case LimitedReader_Read r lN 8192 of (bs, err, r', lN') \<Rightarrow>
        length bs
          + (case err of Some e \<Rightarrow> 0 | None \<Rightarrow> discard_ReadFrom_pulled (pred_numeral k) r' lN'))"
  using discard_ReadFrom_pulled.simps(2) [of "pred_numeral k" r lN]
  by (simp only: numeral_eq_Suc [of k, symmetric])

theorem bytesRead_never_decreases_witness:
  "lifetime_step\<^sup>*\<^sup>*
     (fst (NewReader bytes_Reader no_scratch [1, 2, 3, 4, 5, 6] LittleEndian 10), 0)
     ((mem_reader [1, 2, 3, 4, 5, 6] LittleEndian 10)\<lparr>in_state := [3, 4, 5, 6], bytesRead := 2\<rparr>, 2)
   \<and> lifetime_step\<^sup>*\<^sup>*
     ((mem_reader [1, 2, 3, 4, 5, 6] LittleEndian 10)\<lparr>in_state := [3, 4, 5, 6], bytesRead := 2\<rparr>, 2)
     ((mem_reader [1, 2, 3, 4, 5, 6] LittleEndian 10)\<lparr>in_state := [6], bytesRead := 5\<rparr>, 5)
   \<and> (5 :: nat) < 9223372036854775808
   \<and> bytesRead ((mem_reader [1, 2, 3, 4, 5, 6] LittleEndian 10)\<lparr>in_state := [3, 4, 5, 6], bytesRead := 2\<rparr>)
        \<le>s bytesRead ((mem_reader [1, 2, 3, 4, 5, 6] LittleEndian 10)\<lparr>in_state := [6], bytesRead := 5\<rparr>)
   \<and> sint (bytesRead ((mem_reader [1, 2, 3, 4, 5, 6] LittleEndian 10)\<lparr>in_state := [6], bytesRead := 5\<rparr>))
        = int 5"
proof -
  let ?r0 = "mem_reader [1, 2, 3, 4, 5, 6] LittleEndian 10"
  let ?ra = "?r0\<lparr>in_state := [3, 4, 5, 6], bytesRead := 2\<rparr>"
  let ?rb = "?r0\<lparr>in_state := [3, 4, 5, 6], bytesRead := 2, limit := 5, limitStack := [10]\<rparr>"
  let ?rc = "?r0\<lparr>in_state := [6], bytesRead := 5\<rparr>"
  have r0: "fst (NewReader bytes_Reader no_scratch [1, 2, 3, 4, 5, 6] LittleEndian 10) = ?r0"
    by (simp add: mem_reader_def)
  have "Read ?r0 2 = ([1, 2], None, ?ra)" by (simp add: eval_simps)
  from step_Read [OF this, of 0] have s1: "lifetime_step (?r0, 0) (?ra, 2)"
    by (simp add: numeral_2_eq_2)
  have "PushLimit ?ra 3 = (None, ?rb)" by (simp add: eval_simps)
  from step_PushLimit [OF this, of 2] have s2: "lifetime_step (?ra, 2) (?rb, 2)" .
  have "PopLimit 5 ?rb = Some (Inr ?rc)" "PopLimit_pulled 5 ?rb = 3"
    by (simp_all add: eval_simps PopLimit_pulled_def Skip_pulled_def
          discard_ReadFrom_pulled_numeral)
  with step_PopLimit [of 5 ?rb ?rc 2] have s3: "lifetime_step (?rb, 2) (?rc, 5)" by simp
  have a: "lifetime_step\<^sup>*\<^sup>*
      (fst (NewReader bytes_Reader no_scratch [1, 2, 3, 4, 5, 6] LittleEndian 10), 0) (?ra, 2)"
    unfolding r0 using s1 by (rule r_into_rtranclp)
  from s2 s3 have b: "lifetime_step\<^sup>*\<^sup>* (?ra, 2) (?rc, 5)" by (rule converse_rtranclp_into_rtranclp [OF _ r_into_rtranclp])
  have c: "(5 :: nat) < 9223372036854775808" by simp
  from bytesRead_never_decreases [OF a b c] a b c show ?thesis by simp
qed

end
